theory Spec2Isabelle
  imports Main "HOL-Library.Sublist"
begin

section \<open>Strings of the translate route\<close>

text \<open>
  The route of \<^verbatim>\<open>POST /api/translate\<close> works on JavaScript strings. A JavaScript
  string is a sequence of UTF-16 code units, \<^verbatim>\<open>length\<close> counts code units, and every
  regular expression of the route is written without the \<^verbatim>\<open>u\<close> flag, so it reads code
  units too. A string is modelled as the list of its code units, each a natural number;
  all characters the route tests lie in the Basic Multilingual Plane.
\<close>

type_synonym jsstring = "nat list"

text \<open>\<^verbatim>\<open>String.prototype.includes\<close>: the search string starts at some index.\<close>

fun js_includes :: "jsstring \<Rightarrow> jsstring \<Rightarrow> bool" where
  "js_includes [] pat = (pat = [])"
| "js_includes (c # cs) pat = (prefix pat (c # cs) \<or> js_includes cs pat)"

text \<open>
  \<^verbatim>\<open>GetSubstitution\<close> for a string pattern (no captures, no named groups): in the
  replacement text \<^verbatim>\<open>$$\<close> stands for a dollar sign, \<^verbatim>\<open>$&\<close> for the matched text,
  \<^verbatim>\<open>$`\<close> for the text before the match and \<^verbatim>\<open>$'\<close> for the text after it; a dollar
  sign before anything else (a digit and \<^verbatim>\<open><\<close> included, as there is no capture) stays.
  Code units: \<^verbatim>\<open>$\<close> 36, \<^verbatim>\<open>&\<close> 38, \<^verbatim>\<open>`\<close> 96, \<^verbatim>\<open>'\<close> 39.
\<close>

fun get_substitution :: "jsstring \<Rightarrow> jsstring \<Rightarrow> nat \<Rightarrow> jsstring \<Rightarrow> jsstring" where
  "get_substitution matched str position [] = []"
| "get_substitution matched str position [c] = [c]"
| "get_substitution matched str position (c # d # r) =
     (if c = 36 then
        (if d = 36 then 36 # get_substitution matched str position r
         else if d = 38 then matched @ get_substitution matched str position r
         else if d = 96 then take position str @ get_substitution matched str position r
         else if d = 39 then
           drop (position + length matched) str @ get_substitution matched str position r
         else c # get_substitution matched str position (d # r))
      else c # get_substitution matched str position (d # r))"

text \<open>
  \<^verbatim>\<open>String.prototype.replaceAll(searchString, replaceValue)\<close> with two strings: the
  matches are found from left to right, each search starting where the last match ended
  (one code unit later when the search string is empty, which matches at every index up
  to the length), and each match is replaced by the substitution of the replacement text.
  \<open>replaceAll_from\<close> is the scan from index \<open>pos\<close>, \<open>rest\<close> being the text from there.
\<close>

function replaceAll_from ::
  "jsstring \<Rightarrow> jsstring \<Rightarrow> jsstring \<Rightarrow> nat \<Rightarrow> jsstring \<Rightarrow> jsstring" where
  "replaceAll_from pat rep str pos rest =
     (if prefix pat rest then
        get_substitution pat str pos rep @
          (if pat = [] then
             (case rest of [] \<Rightarrow> [] | c # cs \<Rightarrow> c # replaceAll_from pat rep str (pos + 1) cs)
           else replaceAll_from pat rep str (pos + length pat) (drop (length pat) rest))
      else (case rest of [] \<Rightarrow> [] | c # cs \<Rightarrow> c # replaceAll_from pat rep str (pos + 1) cs))"
  by pat_completeness auto
termination
  by (relation "measure (\<lambda>(pat, rep, str, pos, rest). length rest)") (auto simp: prefix_def)

declare replaceAll_from.simps [simp del]

definition replaceAll :: "jsstring \<Rightarrow> jsstring \<Rightarrow> jsstring \<Rightarrow> jsstring" where
  "replaceAll str pat rep = replaceAll_from pat rep str 0 str"

text \<open>
  \<^verbatim>\<open>String.prototype.trim\<close> removes white space and line terminators at both ends:
  U+0009 to U+000D, U+0020, U+00A0, U+1680, U+2000 to U+200A, U+2028, U+2029, U+202F,
  U+205F, U+3000 and U+FEFF.
\<close>

definition is_ws :: "nat \<Rightarrow> bool" where
  "is_ws c = ((9 \<le> c \<and> c \<le> 13) \<or> c = 32 \<or> c = 160 \<or> c = 5760 \<or> (8192 \<le> c \<and> c \<le> 8202)
     \<or> c = 8232 \<or> c = 8233 \<or> c = 8239 \<or> c = 8287 \<or> c = 12288 \<or> c = 65279)"

definition trim :: "jsstring \<Rightarrow> jsstring" where
  "trim s = rev (dropWhile is_ws (rev (dropWhile is_ws s)))"

text \<open>\<^verbatim>\<open>Array.prototype.join\<close> with a separator.\<close>

fun js_join :: "jsstring \<Rightarrow> jsstring list \<Rightarrow> jsstring" where
  "js_join sep [] = []"
| "js_join sep [x] = x"
| "js_join sep (x # y # ys) = x @ sep @ js_join sep (y # ys)"

text \<open>The decimal digits of a number, as a template literal writes it.\<close>

fun decimal :: "nat \<Rightarrow> jsstring" where
  "decimal n = (if n < 10 then [48 + n] else decimal (n div 10) @ [48 + n mod 10])"

declare decimal.simps [simp del]

section \<open>The glossary and its cache\<close>

record GlossaryEntry =
  en :: jsstring
  confidence :: jsstring

text \<open>
  A \<^verbatim>\<open>Glossary\<close> is an object of categories, each an object of entries keyed by the
  Japanese term. The loops of the route read both with \<^verbatim>\<open>for ... in\<close>, so an object is
  modelled as the list of its (key, value) pairs in enumeration order.
\<close>

type_synonym glossary = "(jsstring \<times> (jsstring \<times> GlossaryEntry) list) list"

text \<open>
  What \<^verbatim>\<open>loadGlossary\<close> finds when it reads \<^verbatim>\<open>data/glossary.json\<close>: the file cannot
  be read (\<^verbatim>\<open>readFileSync\<close> throws), its content is not JSON (\<^verbatim>\<open>JSON.parse\<close> throws),
  or it parses to a value that the route takes as a \<^verbatim>\<open>Glossary\<close>.
\<close>

datatype glossary_file = Unreadable | Malformed | Parsed glossary

text \<open>
  The module variable \<^verbatim>\<open>glossaryCache\<close> is \<open>None\<close> for \<^verbatim>\<open>null\<close>. The function returns
  the glossary and the new value of the variable. Both exceptions are caught inside it.
\<close>

fun loadGlossary :: "glossary_file \<Rightarrow> glossary option \<Rightarrow> glossary \<times> glossary option" where
  "loadGlossary file (Some cached) = (cached, Some cached)"
| "loadGlossary (Parsed g) None = (g, Some g)"
| "loadGlossary Unreadable None = ([], None)"
| "loadGlossary Malformed None = ([], None)"

text \<open>A process serving calls one after the other, each finding the file in some state.\<close>

fun loadGlossary_calls ::
  "glossary_file list \<Rightarrow> glossary option \<Rightarrow> glossary list \<times> glossary option" where
  "loadGlossary_calls [] cache = ([], cache)"
| "loadGlossary_calls (f # fs) cache =
     (case loadGlossary f cache of (g, cache') \<Rightarrow>
        (case loadGlossary_calls fs cache' of (gs, cache'') \<Rightarrow> (g # gs, cache'')))"

section \<open>Protecting proper nouns\<close>

text \<open>The placeholder \<^verbatim>\<open>__PN_${placeholderIndex}__\<close>: \<^verbatim>\<open>_\<close> 95, \<^verbatim>\<open>P\<close> 80, \<^verbatim>\<open>N\<close> 78.\<close>

definition placeholder :: "nat \<Rightarrow> jsstring" where
  "placeholder n = [95, 95, 80, 78, 95] @ decimal n @ [95, 95]"

text \<open>
  \<^verbatim>\<open>Map.prototype.set\<close>: a key already present keeps its place and takes the new value,
  a new key goes last.
\<close>

fun map_set :: "jsstring \<Rightarrow> jsstring \<Rightarrow> (jsstring \<times> jsstring) list \<Rightarrow> (jsstring \<times> jsstring) list" where
  "map_set k v [] = [(k, v)]"
| "map_set k v ((k', v') # m) = (if k' = k then (k, v) # m else (k', v') # map_set k v m)"

text \<open>
  The local variables of \<^verbatim>\<open>protectProperNouns\<close>; the function returns the first three.
\<close>

record protect_state =
  protectedText :: jsstring
  placeholderMap :: "(jsstring \<times> jsstring) list"
  foundProperNouns :: "jsstring list"
  placeholderIndex :: nat

text \<open>The body of the inner loop, for one entry of a category.\<close>

definition protect_entry :: "protect_state \<Rightarrow> jsstring \<times> GlossaryEntry \<Rightarrow> protect_state" where
  "protect_entry st je =
     (case je of (japanese, entry) \<Rightarrow>
        if js_includes (protectedText st) japanese then
          st\<lparr> placeholderMap :=
                 map_set (placeholder (placeholderIndex st)) (en entry) (placeholderMap st),
              foundProperNouns := foundProperNouns st @ [japanese],
              protectedText :=
                 replaceAll (protectedText st) japanese (placeholder (placeholderIndex st)),
              placeholderIndex := placeholderIndex st + 1 \<rparr>
        else st)"

definition protect_category ::
  "protect_state \<Rightarrow> jsstring \<times> (jsstring \<times> GlossaryEntry) list \<Rightarrow> protect_state" where
  "protect_category st ce = (case ce of (category, entries) \<Rightarrow> foldl protect_entry st entries)"

definition protect_init :: "jsstring \<Rightarrow> protect_state" where
  "protect_init text =
     \<lparr> protectedText = text, placeholderMap = [], foundProperNouns = [], placeholderIndex = 0 \<rparr>"

definition protectProperNouns :: "jsstring \<Rightarrow> glossary \<Rightarrow> protect_state" where
  "protectProperNouns text g = foldl protect_category (protect_init text) g"

section \<open>Detecting unknown proper nouns\<close>

text \<open>The character class of the kanji pattern: U+4E00 to U+9FAF.\<close>

definition is_kanji :: "nat \<Rightarrow> bool" where
  "is_kanji c = (19968 \<le> c \<and> c \<le> 40879)"

text \<open>
  \<^verbatim>\<open>text.match(kanjiPattern)\<close>, the pattern being two or more of the class, with the
  flag \<^verbatim>\<open>g\<close>: the quantifier is greedy, so a match is a whole
  run of the class from where the search stands; a run of one code unit does not match
  and the search moves on. No match at all gives \<^verbatim>\<open>null\<close>, for which the function
  returns the empty list as well.
\<close>

function kanji_matches :: "jsstring \<Rightarrow> jsstring list" where
  "kanji_matches [] = []"
| "kanji_matches (c # cs) =
     (if 2 \<le> length (takeWhile is_kanji (c # cs))
      then takeWhile is_kanji (c # cs) # kanji_matches (dropWhile is_kanji (c # cs))
      else kanji_matches cs)"
  by pat_completeness auto
termination
proof (relation "measure length", goal_cases)
  case 1
  show ?case by simp
next
  case (2 c cs)
  then have "is_kanji c"
    by (cases "is_kanji c") auto
  moreover have "length (dropWhile is_kanji cs) \<le> length cs"
    by (rule length_dropWhile_le)
  ultimately show ?case by simp
next
  case (3 c cs)
  show ?case by simp
qed

text \<open>\<^verbatim>\<open>Set.prototype.add\<close> keeps the first insertion of a value.\<close>

definition set_add :: "jsstring list \<Rightarrow> jsstring \<Rightarrow> jsstring list" where
  "set_add s x = (if x \<in> set s then s else s @ [x])"

definition knownNouns :: "glossary \<Rightarrow> jsstring list" where
  "knownNouns g = foldl (\<lambda>s ce. foldl (\<lambda>s' je. set_add s' (fst je)) s (snd ce)) [] g"

definition detectUnknownProperNouns :: "jsstring \<Rightarrow> glossary \<Rightarrow> jsstring list" where
  "detectUnknownProperNouns text g =
     filter (\<lambda>m. m \<notin> set (knownNouns g) \<and>
                 \<not> list_ex (\<lambda>known. js_includes known m \<or> js_includes m known) (knownNouns g))
       (kanji_matches text)"

section \<open>Splitting into sentences\<close>

text \<open>
  The character class of the splitter: the marks U+3002, U+FF01 and U+FF1F, and the line
  feed.
\<close>

definition is_punct :: "nat \<Rightarrow> bool" where
  "is_punct c = (c = 12290 \<or> c = 65281 \<or> c = 65311)"

definition is_sep :: "nat \<Rightarrow> bool" where
  "is_sep c = (is_punct c \<or> c = 10)"

text \<open>
  \<^verbatim>\<open>text.split\<close> on one or more of the class, in a capture group: the pieces between
  the runs of the class, and, because of the capture group, each run between its two
  pieces. The first and the last piece may
  be empty.
\<close>

function split_sep :: "jsstring \<Rightarrow> jsstring list" where
  "split_sep s =
     (case dropWhile (\<lambda>c. \<not> is_sep c) s of
        [] \<Rightarrow> [s]
      | c # r \<Rightarrow> takeWhile (\<lambda>c. \<not> is_sep c) s # takeWhile is_sep (c # r)
                 # split_sep (dropWhile is_sep (c # r)))"
  by pat_completeness auto
termination
proof (relation "measure length", goal_cases)
  case 1
  show ?case by simp
next
  case (2 s c r)
  have "length (dropWhile is_sep r) \<le> length r"
    by (rule length_dropWhile_le)
  moreover have "is_sep c"
    using 2 hd_dropWhile [of "\<lambda>c. \<not> is_sep c" s] by auto
  moreover have "length (c # r) \<le> length s"
    using 2 length_dropWhile_le [of "\<lambda>c. \<not> is_sep c" s] by simp
  ultimately show ?case by simp
qed

declare split_sep.simps [simp del]

text \<open>The test of the loop: one or more marks (no line feed) and nothing else.\<close>

definition is_pure_punct :: "jsstring \<Rightarrow> bool" where
  "is_pure_punct s = (s \<noteq> [] \<and> list_all is_punct s)"

text \<open>The body of the loop that joins a run of marks to the sentence before it.\<close>

definition merge_step :: "jsstring list \<Rightarrow> jsstring \<Rightarrow> jsstring list" where
  "merge_step result s =
     (if is_pure_punct s then
        (if result \<noteq> [] then butlast result @ [last result @ s] else result)
      else result @ [s])"

definition splitIntoSentences :: "jsstring \<Rightarrow> jsstring list" where
  "splitIntoSentences text =
     (let sentences = map trim (filter (\<lambda>s. 0 < length (trim s)) (split_sep text))
      in filter (\<lambda>s. 0 < length s) (foldl merge_step [] sentences))"

section \<open>Translating one sentence\<close>

text \<open>
  \<^verbatim>\<open>JSON.parse\<close> has the type \<^verbatim>\<open>any\<close>: what the provider puts under \<^verbatim>\<open>translated\<close> is
  not tested to be a string, so the values of JSON are part of the model. A number is
  given by the text that \<^verbatim>\<open>Number.prototype.toString\<close> makes of it (\<^verbatim>\<open>42\<close> for 42;
  zero and minus zero both give \<^verbatim>\<open>0\<close>), which is all the route can observe of it. An
  object is given by its members in the order of the JSON text; a later member replaces
  an earlier one with the same key.
\<close>

datatype json =
    JNull
  | JBool bool
  | JNum jsstring
  | JStr jsstring
  | JArr "json list"
  | JObj "(jsstring \<times> json) list"

text \<open>Reading a property of an object that \<^verbatim>\<open>JSON.parse\<close> has made.\<close>

definition get_prop :: "(jsstring \<times> json) list \<Rightarrow> jsstring \<Rightarrow> json option" where
  "get_prop props key = map_of (rev props) key"

text \<open>
  \<^verbatim>\<open>ToBoolean\<close>: \<^verbatim>\<open>null\<close>, \<^verbatim>\<open>false\<close>, zero and the empty string are falsy; every
  array and every object is truthy.
\<close>

fun truthy :: "json \<Rightarrow> bool" where
  "truthy JNull = False"
| "truthy (JBool b) = b"
| "truthy (JNum r) = (r \<noteq> [48])"
| "truthy (JStr s) = (s \<noteq> [])"
| "truthy (JArr vs) = True"
| "truthy (JObj props) = True"

text \<open>
  \<^verbatim>\<open>ToString\<close>. An array is converted by \<^verbatim>\<open>Array.prototype.join\<close> with a comma, where
  \<^verbatim>\<open>null\<close> counts as the empty string. An object is converted by the method \<^verbatim>\<open>toString\<close>:
  the inherited one gives \<^verbatim>\<open>[object Object]\<close>; a member named \<^verbatim>\<open>toString\<close> hides it,
  and as no value of JSON can be called (and \<^verbatim>\<open>valueOf\<close>, own or inherited, gives no
  primitive value) the conversion throws a \<^verbatim>\<open>TypeError\<close> (\<open>None\<close>).
\<close>

definition key_toString :: jsstring where
  "key_toString = [116, 111, 83, 116, 114, 105, 110, 103]"

definition object_Object :: jsstring where
  "object_Object = [91, 111, 98, 106, 101, 99, 116, 32, 79, 98, 106, 101, 99, 116, 93]"

fun to_string :: "json \<Rightarrow> jsstring option" where
  "to_string JNull = Some [110, 117, 108, 108]"
| "to_string (JBool b) = Some (if b then [116, 114, 117, 101] else [102, 97, 108, 115, 101])"
| "to_string (JNum r) = Some r"
| "to_string (JStr s) = Some s"
| "to_string (JArr vs) =
     map_option (js_join [44])
       (those (map (\<lambda>v. if v = JNull then Some [] else to_string v) vs))"
| "to_string (JObj props) =
     (if key_toString \<in> fst ` set props then None else Some object_Object)"

text \<open>
  \<^verbatim>\<open>Array.prototype.join\<close> on an array of values: each element is converted, \<^verbatim>\<open>null\<close>
  to the empty string; the call throws when a conversion does.
\<close>

definition join_values :: "jsstring \<Rightarrow> json list \<Rightarrow> jsstring option" where
  "join_values sep vs =
     map_option (js_join sep)
       (those (map (\<lambda>v. if v = JNull then Some [] else to_string v) vs))"

text \<open>
  What the \<^verbatim>\<open>try\<close> block of \<^verbatim>\<open>translateSentence\<close> meets. The call to the provider
  rejects (\<open>ApiError\<close>: network, time-out, provider error); or it answers and
  \<^verbatim>\<open>choices[0]?.message?.content\<close> is missing (\<open>NoContent\<close>) or is a string
  (\<open>Content\<close>). \<^verbatim>\<open>JSON.parse\<close> of the content throws (\<open>NotJson\<close>) or gives a value
  (\<open>Json\<close>).
\<close>

datatype parsed = NotJson | Json json

datatype completion = ApiError | NoContent | Content jsstring parsed

definition key_translated :: jsstring where
  "key_translated = [116, 114, 97, 110, 115, 108, 97, 116, 101, 100]"

text \<open>
  \<^verbatim>\<open>result.translated\<close>: reading the property of \<^verbatim>\<open>null\<close> throws (\<open>None\<close>); a boolean,
  a number, a string and an array have no such property, and an object may lack it
  (\<open>Some None\<close>, the value \<^verbatim>\<open>undefined\<close>).
\<close>

fun result_translated :: "json \<Rightarrow> json option option" where
  "result_translated JNull = None"
| "result_translated (JObj props) = Some (get_prop props key_translated)"
| "result_translated (JBool b) = Some None"
| "result_translated (JNum r) = Some None"
| "result_translated (JStr s) = Some None"
| "result_translated (JArr vs) = Some None"

text \<open>
  The function returns \<^verbatim>\<open>{ translated }\<close>; the model returns that value. The empty
  content is falsy, and so may \<^verbatim>\<open>result.translated\<close> be: then \<^verbatim>\<open>||\<close> gives the sentence.
  A truthy \<^verbatim>\<open>result.translated\<close> is returned as it is, string or not. Every \<^verbatim>\<open>throw\<close>
  of the block lands in its \<^verbatim>\<open>catch\<close>, which returns the sentence.
\<close>

fun translateSentence :: "completion \<Rightarrow> jsstring \<Rightarrow> json" where
  "translateSentence ApiError sentence = JStr sentence"
| "translateSentence NoContent sentence = JStr sentence"
| "translateSentence (Content content NotJson) sentence = JStr sentence"
| "translateSentence (Content content (Json result)) sentence =
     (if content = [] then JStr sentence
      else case result_translated result of
             None \<Rightarrow> JStr sentence
           | Some None \<Rightarrow> JStr sentence
           | Some (Some v) \<Rightarrow> if truthy v then v else JStr sentence)"


section \<open>Restoring proper nouns\<close>

definition restoreProperNouns :: "jsstring \<Rightarrow> (jsstring \<times> jsstring) list \<Rightarrow> jsstring" where
  "restoreProperNouns translatedText pm =
     foldl (\<lambda>restored pe. replaceAll restored (fst pe) (snd pe)) translatedText pm"

text \<open>
  The function is declared on strings, but the route hands it \<^verbatim>\<open>translated\<close> as
  \<^verbatim>\<open>translateSentence\<close> returned it. On a value that is not a string the loop over an
  empty map does nothing and the value comes back; with an entry in the map,
  \<^verbatim>\<open>restored.replaceAll\<close> is not a function and the call throws a \<^verbatim>\<open>TypeError\<close>
  (\<open>None\<close>).
\<close>

fun restoreProperNouns_value :: "json \<Rightarrow> (jsstring \<times> jsstring) list \<Rightarrow> json option" where
  "restoreProperNouns_value (JStr s) pm = Some (JStr (restoreProperNouns s pm))"
| "restoreProperNouns_value v pm = (if pm = [] then Some v else None)"

section \<open>The risk level\<close>

datatype RiskLevel = GREEN | YELLOW | RED

text \<open>The texts of the two warnings, before and after the list of nouns.\<close>

definition red_before :: jsstring where
  "red_before = [35442, 24403, 12377, 12427, 22266, 26377, 21517, 35422, 12364, 12289, 12490,
     12524, 12483, 12472, 12505, 12540, 12473, 12395, 30331, 37682, 12373, 12428, 12390, 12356,
     12394, 12356, 29366, 24907, 12391, 12377, 12290, 58, 32]"

definition red_after :: jsstring where
  "red_after = [46, 32, 60, 47, 98, 114, 62, 60, 47, 98, 114, 62, 12499, 12470, 30003, 35531,
     12398, 25552, 20986, 21069, 12395, 12289, 12497, 12473, 12509, 12540, 12488, 35352, 36617,
     12398, 32180, 12426, 12395, 35492, 12426, 12364, 12394, 12356, 12363, 12372, 30906, 35469,
     12367, 12384, 12373, 12356, 12290]"

definition yellow_before :: jsstring where
  "yellow_before = [83, 111, 109, 101, 32, 112, 114, 111, 112, 101, 114, 32, 110, 111, 117, 110,
     115, 32, 110, 111, 116, 32, 102, 111, 117, 110, 100, 32, 105, 110, 32, 107, 110, 111, 119,
     108, 101, 100, 103, 101, 32, 98, 97, 115, 101, 58, 32]"

definition yellow_after :: jsstring where
  "yellow_after = [46, 32, 80, 108, 101, 97, 115, 101, 32, 118, 101, 114, 105, 102, 121, 32, 116,
     114, 97, 110, 115, 108, 97, 116, 105, 111, 110, 115, 46]"

text \<open>
  Step 7 of \<^verbatim>\<open>POST\<close>, from the list of unknown proper nouns to \<^verbatim>\<open>riskLevel\<close> and
  \<^verbatim>\<open>warnings\<close>. The separator of \<^verbatim>\<open>join\<close> is a comma and a space.
\<close>

definition classify :: "jsstring list \<Rightarrow> RiskLevel \<times> jsstring list" where
  "classify unknownProperNouns =
     (if 0 < length unknownProperNouns then
        (if list_ex (\<lambda>noun. 2 \<le> length noun \<and> length noun \<le> 4) unknownProperNouns
         then (RED, [red_before @ js_join [44, 32] unknownProperNouns @ red_after])
         else (YELLOW, [yellow_before @ js_join [44, 32] unknownProperNouns @ yellow_after]))
      else (GREEN, []))"

section \<open>The route\<close>

record SentenceTranslation =
  original :: jsstring
  translated :: json

record TranslationResponse =
  outputText :: jsstring
  riskLevel :: RiskLevel
  warnings :: "jsstring list"
  appliedGlossary :: "jsstring list"
  sentences :: "SentenceTranslation list"

text \<open>
  The responses of the route: the four error bodies with their status, and the
  translation with status 200.
\<close>

datatype response =
    KeyNotConfigured500
  | InvalidText400
  | UnsupportedMode400
  | InternalServerError500
  | Ok200 TranslationResponse

text \<open>
  Step 4. \<open>llm i s\<close> is what the call for the sentence \<open>s\<close> at index \<open>i\<close> meets; the calls
  run under \<^verbatim>\<open>Promise.all\<close>, which keeps the results in the order of the sentences.
\<close>

definition sentenceTranslations ::
  "(nat \<Rightarrow> jsstring \<Rightarrow> completion) \<Rightarrow> jsstring list \<Rightarrow> json list" where
  "sentenceTranslations llm protectedSentences =
     map (\<lambda>(i, sentence). translateSentence (llm i sentence) sentence)
       (enumerate 0 protectedSentences)"

text \<open>
  \<^verbatim>\<open>originalSentences.map((original, i) => ...)\<close> reads \<^verbatim>\<open>sentenceTranslations[i]\<close>.
  Past the end of that array the element is \<^verbatim>\<open>undefined\<close> and reading its
  \<^verbatim>\<open>translated\<close> throws a \<^verbatim>\<open>TypeError\<close>; so does restoring a value that is not a
  string when the map has an entry. Either way the result is \<open>None\<close>, which the \<^verbatim>\<open>catch\<close>
  of the route turns into the response 500.
\<close>

fun build_sentences ::
  "jsstring list \<Rightarrow> json list \<Rightarrow> (jsstring \<times> jsstring) list \<Rightarrow> SentenceTranslation list option" where
  "build_sentences [] ts pm = Some []"
| "build_sentences (orig # os) [] pm = None"
| "build_sentences (orig # os) (t # ts) pm =
     (case restoreProperNouns_value t pm of
        None \<Rightarrow> None
      | Some v \<Rightarrow>
          (case build_sentences os ts pm of
             None \<Rightarrow> None
           | Some r \<Rightarrow> Some (\<lparr> original = orig, translated = v \<rparr> # r)))"

text \<open>
  Steps 1 to 7 and the response, for a valid request. The join of step 5 converts every
  translation to a string; when a conversion throws, the \<^verbatim>\<open>catch\<close> of the route answers
  500.
\<close>

definition translate_pipeline ::
  "glossary \<Rightarrow> jsstring \<Rightarrow> (nat \<Rightarrow> jsstring \<Rightarrow> completion) \<Rightarrow> response" where
  "translate_pipeline g text llm =
     (let p = protectProperNouns text g;
          unknownProperNouns = detectUnknownProperNouns text g;
          originalSentences = splitIntoSentences text;
          protectedSentences = splitIntoSentences (protectedText p);
          translations = sentenceTranslations llm protectedSentences
      in case join_values [32] translations of
           None \<Rightarrow> InternalServerError500
         | Some combinedTranslated \<Rightarrow>
             (let output = restoreProperNouns combinedTranslated (placeholderMap p);
                  (risk, warns) = classify unknownProperNouns
              in case build_sentences originalSentences translations (placeholderMap p) of
                   None \<Rightarrow> InternalServerError500
                 | Some ss \<Rightarrow>
                     Ok200 \<lparr> outputText = output, riskLevel = risk, warnings = warns,
                             appliedGlossary = foundProperNouns p, sentences = ss \<rparr>))"

text \<open>
  The request as the route reads it: whether \<^verbatim>\<open>OPENAI_API_KEY\<close> is set, and the body.
  \<^verbatim>\<open>request.json()\<close> rejects, or the destructuring of its value throws
  (\<open>BodyUnreadable\<close>); otherwise \<^verbatim>\<open>text\<close> and \<^verbatim>\<open>mode\<close> are read, each \<open>None\<close> when it
  is missing or not a string. The mode \<^verbatim>\<open>visa-strict\<close> is spelled out in code units.
\<close>

datatype request_body = BodyUnreadable | Body "jsstring option" "jsstring option"

record request =
  api_key_set :: bool
  body :: request_body

definition visa_strict :: jsstring where
  "visa_strict = [118, 105, 115, 97, 45, 115, 116, 114, 105, 99, 116]"

text \<open>
  \<^verbatim>\<open>POST\<close>, with the state it reads and writes: the glossary file and the cache. It
  returns the response and the cache afterwards.
\<close>

definition POST ::
  "request \<Rightarrow> glossary_file \<Rightarrow> glossary option \<Rightarrow> (nat \<Rightarrow> jsstring \<Rightarrow> completion)
     \<Rightarrow> response \<times> glossary option" where
  "POST req file cache llm =
     (if \<not> api_key_set req then (KeyNotConfigured500, cache)
      else case body req of
        BodyUnreadable \<Rightarrow> (InternalServerError500, cache)
      | Body text mode \<Rightarrow>
          (case text of
             None \<Rightarrow> (InvalidText400, cache)
           | Some t \<Rightarrow>
               if t = [] then (InvalidText400, cache)
               else if mode \<noteq> Some visa_strict then (UnsupportedMode400, cache)
               else (case loadGlossary file cache of
                       (g, cache') \<Rightarrow> (translate_pipeline g t llm, cache'))))"

section \<open>Notions used in the statements and proofs\<close>

text \<open>
  The scan of \<open>replaceAll_from\<close> when the replacement text has no dollar sign: the
  replacement is then put in as it is, and the scan needs neither the whole text nor the
  index.
\<close>

function replace_plain :: "jsstring \<Rightarrow> jsstring \<Rightarrow> jsstring \<Rightarrow> jsstring" where
  "replace_plain pat rep rest =
     (if prefix pat rest then
        rep @
          (if pat = [] then
             (case rest of [] \<Rightarrow> [] | c # cs \<Rightarrow> c # replace_plain pat rep cs)
           else replace_plain pat rep (drop (length pat) rest))
      else (case rest of [] \<Rightarrow> [] | c # cs \<Rightarrow> c # replace_plain pat rep cs))"
  by pat_completeness auto
termination
  by (relation "measure (\<lambda>(pat, rep, rest). length rest)") (auto simp: prefix_def)

declare replace_plain.simps [simp del]

text \<open>
  The code units a placeholder is made of: the underscore, \<^verbatim>\<open>P\<close>, \<^verbatim>\<open>N\<close> and the decimal
  digits. A term is safe from placeholders when it is not empty, has no underscore and is
  not made of these code units only.
\<close>

definition is_digit :: "nat \<Rightarrow> bool" where
  "is_digit c = (48 \<le> c \<and> c \<le> 57)"

definition placeholder_char :: "nat \<Rightarrow> bool" where
  "placeholder_char c = (c = 95 \<or> c = 80 \<or> c = 78 \<or> is_digit c)"

definition placeholder_safe :: "jsstring \<Rightarrow> bool" where
  "placeholder_safe j = (j \<noteq> [] \<and> 95 \<notin> set j \<and> \<not> list_all placeholder_char j)"

text \<open>
  A term is apart from a replacement text when no occurrence of the term can overlap a
  copy of the replacement: the replacement starts and ends with code units the term does
  not have, and the term has a code unit the replacement does not have.
\<close>

definition apart :: "jsstring \<Rightarrow> jsstring \<Rightarrow> bool" where
  "apart j rep =
     (j \<noteq> [] \<and> rep \<noteq> [] \<and> hd rep \<notin> set j \<and> last rep \<notin> set j \<and> \<not> set j \<subseteq> set rep)"

text \<open>The number that a string of decimal digits writes.\<close>

definition undecimal :: "jsstring \<Rightarrow> nat" where
  "undecimal ds = foldl (\<lambda>a d. 10 * a + (d - 48)) 0 ds"

text \<open>
  Two invariants of the loops of \<open>protectProperNouns\<close>. The first: the keys of the map are
  the placeholders 0, 1, ... in this order, one for each term found. The second, for a
  term \<open>j\<close> and a rendering \<open>r\<close>: the term is not in the text any more, it was found at most
  once, and where it was found the map holds \<open>r\<close>.
\<close>

definition protect_wf :: "protect_state \<Rightarrow> bool" where
  "protect_wf st =
     (map fst (placeholderMap st) = map placeholder [0..<placeholderIndex st] \<and>
      length (foundProperNouns st) = placeholderIndex st)"

definition resolved :: "jsstring \<Rightarrow> jsstring \<Rightarrow> protect_state \<Rightarrow> bool" where
  "resolved j r st =
     (protect_wf st \<and> \<not> sublist j (protectedText st) \<and>
      count_list (foundProperNouns st) j \<le> 1 \<and>
      (\<forall>n < length (foundProperNouns st).
         foundProperNouns st ! n = j \<longrightarrow> placeholderMap st ! n = (placeholder n, r)))"

text \<open>
  A code unit is plain when it is not in the class of the splitter. A term is inner when
  it cannot touch a boundary of a sentence: it is not empty, all its code units are
  plain, and it neither starts nor ends with white space. A glossary is inner when all
  its terms are.
\<close>

definition plainc :: "nat \<Rightarrow> bool" where
  "plainc c = (\<not> is_sep c)"

definition inner_term :: "jsstring \<Rightarrow> bool" where
  "inner_term j =
     (j \<noteq> [] \<and> list_all plainc j \<and> \<not> is_ws (hd j) \<and> \<not> is_ws (last j))"

definition inner_glossary :: "glossary \<Rightarrow> bool" where
  "inner_glossary g = list_all (\<lambda>ke. inner_term (fst ke)) (concat (map snd g))"

text \<open>
  A function on texts respects the splitter when it leaves every code unit of the class
  where it is, working on the stretches of plain code units between them; keeps such a
  stretch plain and, unless it is empty, not empty; and commutes with trimming on such a
  stretch.
\<close>

definition seg_hom :: "(jsstring \<Rightarrow> jsstring) \<Rightarrow> bool" where
  "seg_hom R =
     ((\<forall>u c v. \<not> plainc c \<longrightarrow> R (u @ c # v) = R u @ c # R v) \<and> R [] = [] \<and>
      (\<forall>u. list_all plainc u \<longrightarrow>
         list_all plainc (R u) \<and> (u \<noteq> [] \<longrightarrow> R u \<noteq> []) \<and> trim (R u) = R (trim u)))"

text \<open>
  The replacements of \<open>protectProperNouns\<close> for a list of terms, the first of which gets
  the placeholder of index \<open>k\<close>.
\<close>

definition apply_placeholders :: "nat \<Rightarrow> jsstring list \<Rightarrow> jsstring \<Rightarrow> jsstring" where
  "apply_placeholders k js s =
     foldl (\<lambda>t nj. replaceAll t (snd nj) (placeholder (fst nj))) s (enumerate k js)"

text \<open>The protected text is the input with the found terms replaced in their order.\<close>

definition protect_trace :: "jsstring \<Rightarrow> protect_state \<Rightarrow> bool" where
  "protect_trace text st =
     (protectedText st = apply_placeholders 0 (foundProperNouns st) text \<and>
      length (foundProperNouns st) = placeholderIndex st)"

text \<open>
  A placeholder-shaped token at the start of a text: \<^verbatim>\<open>__PN_\<close>, one or more decimal
  digits, \<^verbatim>\<open>__\<close>.
\<close>

fun placeholder_at :: "jsstring \<Rightarrow> bool" where
  "placeholder_at (a # b # c # d # e # r) =
     (a = 95 \<and> b = 95 \<and> c = 80 \<and> d = 78 \<and> e = 95 \<and>
      takeWhile is_digit r \<noteq> [] \<and> prefix [95, 95] (dropWhile is_digit r))"
| "placeholder_at s = False"

fun has_placeholder_token :: "jsstring \<Rightarrow> bool" where
  "has_placeholder_token [] = False"
| "has_placeholder_token (c # s) = (placeholder_at (c # s) \<or> has_placeholder_token s)"

text \<open>
  A translated text seen as a list of pieces: a code unit of ordinary text, or the
  placeholder of an index.
\<close>

datatype piece = Ch nat | Ph nat

fun render :: "piece list \<Rightarrow> jsstring" where
  "render [] = []"
| "render (Ch c # ps) = c # render ps"
| "render (Ph n # ps) = placeholder n @ render ps"

text \<open>
  A piece is admitted between two indices when it is a code unit other than the
  underscore, or the placeholder of an index from the first up to, not including, the
  second.
\<close>

fun plain_piece :: "nat \<Rightarrow> nat \<Rightarrow> piece \<Rightarrow> bool" where
  "plain_piece lo hi (Ch c) = (c \<noteq> 95)"
| "plain_piece lo hi (Ph n) = (lo \<le> n \<and> n < hi)"

text \<open>Putting a rendering in the place of the placeholder of one index.\<close>

fun fill :: "nat \<Rightarrow> jsstring \<Rightarrow> piece \<Rightarrow> piece list" where
  "fill n e (Ch c) = [Ch c]"
| "fill n e (Ph m) = (if m = n then map Ch e else [Ph m])"

definition fill_all :: "nat \<Rightarrow> jsstring \<Rightarrow> piece list \<Rightarrow> piece list" where
  "fill_all n e ps = concat (map (fill n e) ps)"

text \<open>
  A sentence with edges: not empty, no white space at its start or end. A sentence with
  the shape the splitter gives: ordinary text with edges followed by marks, or a run of
  the class, with edges, that is more than marks (it holds a line feed).
\<close>

definition edged :: "jsstring \<Rightarrow> bool" where
  "edged x = (x \<noteq> [] \<and> \<not> is_ws (hd x) \<and> \<not> is_ws (last x))"

definition shaped :: "jsstring \<Rightarrow> bool" where
  "shaped s =
     ((\<exists>x p. s = x @ p \<and> list_all (\<lambda>c. \<not> is_sep c) x \<and> edged x \<and> list_all is_punct p) \<or>
      (list_all is_sep s \<and> edged s \<and> \<not> is_pure_punct s))"

text \<open>The values that are strings, and the values that \<^verbatim>\<open>ToString\<close> converts.\<close>

definition is_string :: "json \<Rightarrow> bool" where
  "is_string v = (case v of JStr s \<Rightarrow> True | _ \<Rightarrow> False)"

definition joinable :: "json \<Rightarrow> bool" where
  "joinable v = (to_string v \<noteq> None)"

section \<open>Facts about the string operations\<close>

lemma js_includes_sublist: "js_includes s pat \<longleftrightarrow> sublist pat s"
  by (induction s) (auto simp: sublist_Cons_right)

lemma sublist_middle: "sublist n m \<Longrightarrow> sublist n (a @ m @ b)"
  by (meson sublist_appendI sublist_order.order_trans)

lemma sublist_js_join: "n \<in> set xs \<Longrightarrow> sublist n (js_join sep xs)"
proof (induction sep xs rule: js_join.induct)
  case (1 sep)
  then show ?case by simp
next
  case (2 sep x)
  then show ?case by simp
next
  case (3 sep x y ys)
  show ?case
  proof (cases "n = x")
    case True
    then show ?thesis by simp
  next
    case False
    with 3 have "sublist n (js_join sep (y # ys))" by simp
    then show ?thesis
      using sublist_middle [of n "js_join sep (y # ys)" "x @ sep" "[]"] by simp
  qed
qed

section \<open>Facts about replacing\<close>

lemma get_substitution_plain: "36 \<notin> set rep \<Longrightarrow> get_substitution m s p rep = rep"
  by (induction m s p rep rule: get_substitution.induct) auto

lemma replaceAll_from_plain:
  "36 \<notin> set rep \<Longrightarrow> replaceAll_from pat rep str pos rest = replace_plain pat rep rest"
proof (induction pat rep str pos rest rule: replaceAll_from.induct)
  case (1 pat rep str pos rest)
  show ?case
    apply (subst replaceAll_from.simps)
    apply (subst replace_plain.simps)
    using 1 by (auto simp: get_substitution_plain split: list.splits)
qed

lemma replaceAll_plain: "36 \<notin> set rep \<Longrightarrow> replaceAll str pat rep = replace_plain pat rep str"
  by (simp add: replaceAll_def replaceAll_from_plain)

lemma rp_Nil: "pat \<noteq> [] \<Longrightarrow> replace_plain pat rep [] = []"
  by (subst replace_plain.simps) simp

lemma rp_match: "pat \<noteq> [] \<Longrightarrow> replace_plain pat rep (pat @ s) = rep @ replace_plain pat rep s"
  by (subst replace_plain.simps) simp

lemma rp_skip: "\<not> prefix pat (c # s) \<Longrightarrow> replace_plain pat rep (c # s) = c # replace_plain pat rep s"
  by (subst replace_plain.simps) simp

lemma rp_empty_Nil: "replace_plain [] rep [] = rep"
  by (subst replace_plain.simps) simp

lemma rp_empty_Cons: "replace_plain [] rep (c # s) = rep @ c # replace_plain [] rep s"
  by (subst replace_plain.simps) simp

lemma rp_cases:
  obtains (nil) "s = []" "pat \<noteq> []" "replace_plain pat rep s = []"
  | (match) s' where "pat \<noteq> []" "s = pat @ s'" "replace_plain pat rep s = rep @ replace_plain pat rep s'"
  | (skip) c s' where "s = c # s'" "\<not> prefix pat s" "replace_plain pat rep s = c # replace_plain pat rep s'"
  | (enil) "pat = []" "s = []" "replace_plain pat rep s = rep"
  | (econs) c s' where "pat = []" "s = c # s'" "replace_plain pat rep s = rep @ c # replace_plain pat rep s'"
proof (cases "pat = []")
  case True
  then show ?thesis
    using enil econs rp_empty_Nil rp_empty_Cons by (cases s) auto
next
  case False
  show ?thesis
  proof (cases "prefix pat s")
    case True
    then obtain s' where "s = pat @ s'"
      by (auto simp: prefix_def)
    then show ?thesis
      using match False rp_match by blast
  next
    case np: False
    show ?thesis
    proof (cases s)
      case Nil
      then show ?thesis using nil False rp_Nil by blast
    next
      case (Cons c s')
      then show ?thesis using skip np rp_skip by blast
    qed
  qed
qed

lemma rp_barrier:
  assumes "c \<notin> set pat" "pat \<noteq> []"
  shows "replace_plain pat rep (u @ c # v) = replace_plain pat rep u @ c # replace_plain pat rep v"
proof (induction u rule: length_induct)
  case (1 u)
  have npc: "\<not> prefix pat (c # v)"
    using assms by (cases pat) auto
  show ?case
  proof (cases pat rep u rule: rp_cases)
    case nil
    then show ?thesis
      using npc by (simp add: rp_skip)
  next
    case (match s')
    then have "length s' < length u" by (cases pat) auto
    with 1 have "replace_plain pat rep (s' @ c # v) = replace_plain pat rep s' @ c # replace_plain pat rep v"
      by blast
    then show ?thesis
      using match rp_match [of pat rep "s' @ c # v"] by simp
  next
    case (skip d s')
    have "\<not> prefix pat (u @ c # v)"
    proof
      assume "prefix pat (u @ c # v)"
      then obtain w where "pat = u @ w" "prefix w (c # v)" "w \<noteq> []"
        using skip(2) by (auto simp: prefix_append)
      then show False
        using assms(1) by (cases w) auto
    qed
    then have "replace_plain pat rep (u @ c # v) = d # replace_plain pat rep (s' @ c # v)"
      using skip(1) rp_skip [of pat d "s' @ c # v" rep] by simp
    moreover have "replace_plain pat rep (s' @ c # v) = replace_plain pat rep s' @ c # replace_plain pat rep v"
      using 1 skip(1) by simp
    ultimately show ?thesis
      using skip by simp
  next
    case enil
    then show ?thesis using assms by simp
  next
    case (econs d s')
    then show ?thesis using assms by simp
  qed
qed

lemma prefix_apart:
  assumes "apart j rep" "prefix j (u @ rep @ y)"
  shows "prefix j u"
proof (rule ccontr)
  assume np: "\<not> prefix j u"
  from assms(2) have "prefix j u \<or> (\<exists>us. j = u @ us \<and> prefix us (rep @ y))"
    by (simp add: prefix_append)
  with np obtain us where us: "j = u @ us" "prefix us (rep @ y)"
    by blast
  then have "us \<noteq> []" using np by auto
  moreover have "rep \<noteq> []" using assms(1) by (simp add: apart_def)
  ultimately have "hd us = hd rep"
    using us(2) by (cases us; cases rep) auto
  then have "hd rep \<in> set j"
    using us(1) \<open>us \<noteq> []\<close> by (metis hd_in_set in_set_conv_decomp append.assoc split_list)
  then show False using assms(1) by (simp add: apart_def)
qed

lemma sublist_apart:
  assumes "apart j rep" "sublist j (rep @ y)"
  shows "sublist j y"
proof -
  obtain a b where ab: "rep @ y = a @ j @ b"
    using assms(2) by (auto simp: sublist_def)
  then consider (after) a' where "a = rep @ a'" "y = a' @ j @ b"
    | (inside) r' where "rep = a @ r'" "r' \<noteq> []" "j @ b = r' @ y"
    by (auto simp: append_eq_append_conv2) (metis append_Nil2)+
  then show ?thesis
  proof cases
    case after
    then show ?thesis by auto
  next
    case inside
    from inside(3) consider (cover) j' where "j = r' @ j'"
      | (within) r'' where "r' = j @ r''"
      by (auto simp: append_eq_append_conv2)
    then show ?thesis
    proof cases
      case cover
      then have "last rep \<in> set j"
        using inside(1,2) by (metis last_appendR last_in_set Un_iff set_append)
      then show ?thesis using assms(1) by (simp add: apart_def)
    next
      case within
      then have "set j \<subseteq> set rep"
        using inside(1) by auto
      then show ?thesis using assms(1) by (simp add: apart_def)
    qed
  qed
qed

lemma rp_prefix_back:
  assumes "apart j rep"
  shows "prefix j (u @ replace_plain k rep s) \<Longrightarrow> prefix j (u @ s)"
proof (induction s arbitrary: u rule: length_induct)
  case (1 s)
  note IH = 1(1) and pj = 1(2)
  show ?case
  proof (cases k rep s rule: rp_cases)
    case nil
    then show ?thesis using pj by simp
  next
    case (match s')
    then have "prefix j (u @ rep @ replace_plain k rep s')"
      using pj by simp
    then have "prefix j u"
      using assms by (rule prefix_apart [rotated])
    then show ?thesis by (simp add: prefix_prefix)
  next
    case (skip c s')
    then have "prefix j ((u @ [c]) @ replace_plain k rep s')"
      using pj by simp
    moreover have "length s' < length s"
      using skip(1) by simp
    ultimately have "prefix j ((u @ [c]) @ s')"
      using IH by blast
    then show ?thesis using skip(1) by simp
  next
    case enil
    then have "prefix j (u @ rep @ [])"
      using pj by simp
    then have "prefix j u"
      using assms by (rule prefix_apart [rotated])
    then show ?thesis by (simp add: prefix_prefix)
  next
    case (econs c s')
    then have "prefix j (u @ rep @ c # replace_plain k rep s')"
      using pj by simp
    then have "prefix j u"
      using assms by (rule prefix_apart [rotated])
    then show ?thesis by (simp add: prefix_prefix)
  qed
qed

lemma rp_sublist_back:
  assumes "apart j rep"
  shows "sublist j (replace_plain k rep s) \<Longrightarrow> sublist j s"
proof (induction s rule: length_induct)
  case (1 s)
  note IH = 1(1) and sj = 1(2)
  have tail: "sublist j (c # s')" if "sublist j (c # replace_plain k rep s')" "length s' < length s"
    for c s'
  proof -
    from that(1) consider "prefix j ([c] @ replace_plain k rep s')" | "sublist j (replace_plain k rep s')"
      by (auto simp: sublist_Cons_right)
    then show ?thesis
    proof cases
      case 1
      then have "prefix j ([c] @ s')"
        using assms by (rule rp_prefix_back [rotated])
      then show ?thesis by (simp add: sublist_Cons_right)
    next
      case 2
      then have "sublist j s'" using IH that(2) by blast
      then show ?thesis by (simp add: sublist_Cons_right)
    qed
  qed
  have jne: "j \<noteq> []" using assms by (simp add: apart_def)
  show ?case
  proof (cases k rep s rule: rp_cases)
    case nil
    then show ?thesis using sj jne by simp
  next
    case (match s')
    then have "sublist j (replace_plain k rep s')"
      using sj sublist_apart [OF assms] by simp
    moreover have "length s' < length s"
      using match by (cases k) auto
    ultimately have "sublist j s'" using IH by blast
    then show ?thesis
      using match by (metis sublist_appendI sublist_order.order_trans append_Nil2)
  next
    case (skip c s')
    then show ?thesis using tail [of c s'] sj by simp
  next
    case enil
    then show ?thesis
      using sj sublist_apart [OF assms, of "[]"] jne by simp
  next
    case (econs c s')
    then have "sublist j (c # replace_plain k rep s')"
      using sj sublist_apart [OF assms] by simp
    then show ?thesis using tail [of c s'] econs by simp
  qed
qed

lemma rp_gone:
  assumes "apart j rep"
  shows "\<not> sublist j (replace_plain j rep s)"
proof (induction s rule: length_induct)
  case (1 s)
  note IH = 1(1)
  have jne: "j \<noteq> []" using assms by (simp add: apart_def)
  show ?case
  proof (cases j rep s rule: rp_cases)
    case nil
    then show ?thesis using jne by simp
  next
    case (match s')
    have "length s' < length s"
      using match jne by (cases j) auto
    then have "\<not> sublist j (replace_plain j rep s')" using IH by blast
    then show ?thesis
      using match sublist_apart [OF assms] by auto
  next
    case (skip c s')
    have "\<not> sublist j (replace_plain j rep s')" using IH skip(1) by simp
    moreover have "\<not> prefix j (replace_plain j rep s)"
      using rp_prefix_back [OF assms, of "[]" j s] skip(2) by auto
    ultimately show ?thesis
      using skip by (simp add: sublist_Cons_right)
  next
    case enil
    then show ?thesis using jne by simp
  next
    case (econs c s')
    then show ?thesis using jne by simp
  qed
qed

lemma rp_skip_run:
  assumes "pat \<noteq> []" "list_all (\<lambda>c. c \<noteq> hd pat) w"
  shows "replace_plain pat rep (w @ y) = w @ replace_plain pat rep y"
  using assms(2)
proof (induction w)
  case Nil
  then show ?case by simp
next
  case (Cons c w)
  then have "\<not> prefix pat (c # w @ y)"
    using assms(1) by (cases pat) auto
  then show ?case
    using Cons by (simp add: rp_skip)
qed

section \<open>Facts about placeholders and the protecting loops\<close>

lemma decimal_digits: "list_all is_digit (decimal n)"
proof (induction n rule: decimal.induct)
  case (1 n)
  show ?case
  proof (cases "n < 10")
    case True
    then show ?thesis by (subst decimal.simps) (simp add: is_digit_def)
  next
    case False
    have "n mod 10 < 10" by simp
    then have "is_digit (48 + n mod 10)"
      unfolding is_digit_def by linarith
    then show ?thesis
      using 1 False by (subst decimal.simps) simp
  qed
qed

lemma decimal_not_Nil: "decimal n \<noteq> []"
  by (subst decimal.simps) simp

lemma undecimal_decimal: "undecimal (decimal n) = n"
proof (induction n rule: decimal.induct)
  case (1 n)
  show ?case
  proof (cases "n < 10")
    case True
    then show ?thesis by (subst decimal.simps) (simp add: undecimal_def)
  next
    case False
    then have "undecimal (decimal (n div 10)) = n div 10"
      using 1 by simp
    then show ?thesis
      using False by (subst decimal.simps) (simp add: undecimal_def)
  qed
qed

lemma decimal_inj: "decimal n = decimal m \<Longrightarrow> n = m"
  by (metis undecimal_decimal)

lemma placeholder_inj: "placeholder n = placeholder m \<Longrightarrow> n = m"
  by (simp add: placeholder_def decimal_inj)

lemma placeholder_chars: "list_all placeholder_char (placeholder n)"
  using decimal_digits [of n]
  by (auto simp: placeholder_def placeholder_char_def list_all_iff)

lemma placeholder_not_Nil: "placeholder n \<noteq> []"
  by (simp add: placeholder_def)

lemma placeholder_no_dollar: "36 \<notin> set (placeholder n)"
  using placeholder_chars [of n] by (auto simp: list_all_iff placeholder_char_def is_digit_def)

lemma placeholder_safe_apart: "placeholder_safe j \<Longrightarrow> apart j (placeholder n)"
proof -
  assume a: "placeholder_safe j"
  have "hd (placeholder n) = 95" "last (placeholder n) = 95"
    by (simp_all add: placeholder_def)
  moreover have "\<not> set j \<subseteq> set (placeholder n)"
    using a placeholder_chars [of n] by (auto simp: placeholder_safe_def list_all_iff)
  ultimately show ?thesis
    using a placeholder_not_Nil [of n] by (simp add: apart_def placeholder_safe_def)
qed

lemma replaceAll_placeholder:
  "replaceAll s j (placeholder n) = replace_plain j (placeholder n) s"
  by (simp add: replaceAll_plain placeholder_no_dollar)

lemma protect_entry_miss:
  "\<not> js_includes (protectedText st) j \<Longrightarrow> protect_entry st (j, e) = st"
  by (simp add: protect_entry_def)

lemma protect_entry_hit:
  "js_includes (protectedText st) j \<Longrightarrow>
     protect_entry st (j, e) =
       st\<lparr> placeholderMap :=
              map_set (placeholder (placeholderIndex st)) (en e) (placeholderMap st),
           foundProperNouns := foundProperNouns st @ [j],
           protectedText := replace_plain j (placeholder (placeholderIndex st)) (protectedText st),
           placeholderIndex := placeholderIndex st + 1 \<rparr>"
  by (simp add: protect_entry_def replaceAll_placeholder)

lemma protect_flat:
  "foldl protect_category st g = foldl protect_entry st (concat (map snd g))"
  by (induction g arbitrary: st) (auto simp: protect_category_def)

lemma protectProperNouns_flat:
  "protectProperNouns text g = foldl protect_entry (protect_init text) (concat (map snd g))"
  by (simp add: protectProperNouns_def protect_flat)

lemma absent_step:
  assumes "placeholder_safe j" "\<not> sublist j (protectedText st)"
  shows "\<not> sublist j (protectedText (protect_entry st ke))"
proof (cases ke)
  case (Pair k e)
  show ?thesis
  proof (cases "js_includes (protectedText st) k")
    case True
    have "\<not> sublist j (replace_plain k (placeholder (placeholderIndex st)) (protectedText st))"
      using rp_sublist_back [OF placeholder_safe_apart [OF assms(1)]] assms(2) by blast
    then show ?thesis
      using True Pair by (simp add: protect_entry_hit)
  next
    case False
    then show ?thesis
      using assms Pair by (simp add: protect_entry_miss)
  qed
qed

lemma absent_fold:
  "placeholder_safe j \<Longrightarrow> \<not> sublist j (protectedText st) \<Longrightarrow>
     \<not> sublist j (protectedText (foldl protect_entry st es))"
  by (induction es arbitrary: st) (auto simp: absent_step)

lemma absent_own:
  assumes "placeholder_safe j"
  shows "\<not> sublist j (protectedText (protect_entry st (j, e)))"
proof (cases "js_includes (protectedText st) j")
  case True
  have "\<not> sublist j (replace_plain j (placeholder (placeholderIndex st)) (protectedText st))"
    using rp_gone [OF placeholder_safe_apart [OF assms]] .
  then show ?thesis
    using True by (simp add: protect_entry_hit)
next
  case False
  then show ?thesis
    by (simp add: protect_entry_miss js_includes_sublist)
qed

lemma found_step_mono: "set (foundProperNouns st) \<subseteq> set (foundProperNouns (protect_entry st ke))"
  by (cases ke) (auto simp: protect_entry_def)

lemma found_fold_mono:
  "set (foundProperNouns st) \<subseteq> set (foundProperNouns (foldl protect_entry st es))"
proof (induction es arbitrary: st)
  case Nil
  then show ?case by simp
next
  case (Cons a es)
  then show ?case
    using found_step_mono [of st a] by fastforce
qed

lemma protect_absent:
  assumes "placeholder_safe j" "(j, e) \<in> set (concat (map snd g))"
  shows "\<not> js_includes (protectedText (protectProperNouns text g)) j"
proof -
  obtain pre post where sp: "concat (map snd g) = pre @ (j, e) # post"
    using assms(2) by (meson split_list)
  let ?st = "foldl protect_entry (protect_init text) pre"
  have "\<not> sublist j (protectedText (protect_entry ?st (j, e)))"
    using absent_own [OF assms(1)] .
  then have "\<not> sublist j (protectedText (foldl protect_entry (protect_entry ?st (j, e)) post))"
    using absent_fold [OF assms(1)] by blast
  then show ?thesis
    by (simp add: protectProperNouns_flat sp js_includes_sublist)
qed

lemma protect_recorded:
  assumes "concat (map snd g) = pre @ (j, e) # post"
    and "js_includes (protectedText (foldl protect_entry (protect_init text) pre)) j"
  shows "j \<in> set (foundProperNouns (protectProperNouns text g))"
proof -
  let ?st = "foldl protect_entry (protect_init text) pre"
  have "j \<in> set (foundProperNouns (protect_entry ?st (j, e)))"
    using assms(2) by (simp add: protect_entry_def)
  then show ?thesis
    using found_fold_mono [of "protect_entry ?st (j, e)" post]
    by (auto simp: protectProperNouns_flat assms(1))
qed

lemma map_set_fresh: "k \<notin> fst ` set m \<Longrightarrow> map_set k v m = m @ [(k, v)]"
  by (induction m) auto

lemma protect_wf_fresh:
  assumes "protect_wf st"
  shows "map_set (placeholder (placeholderIndex st)) v (placeholderMap st)
           = placeholderMap st @ [(placeholder (placeholderIndex st), v)]"
proof -
  have "fst ` set (placeholderMap st) = placeholder ` {0..<placeholderIndex st}"
    using assms unfolding protect_wf_def
    by (metis list.set_map set_upt)
  then have "placeholder (placeholderIndex st) \<notin> fst ` set (placeholderMap st)"
    using placeholder_inj [of "placeholderIndex st"] by fastforce
  then show ?thesis
    by (rule map_set_fresh)
qed

lemma protect_wf_hit:
  assumes "protect_wf st" "js_includes (protectedText st) k"
  shows "protect_entry st (k, e) =
       st\<lparr> placeholderMap := placeholderMap st @ [(placeholder (placeholderIndex st), en e)],
           foundProperNouns := foundProperNouns st @ [k],
           protectedText := replace_plain k (placeholder (placeholderIndex st)) (protectedText st),
           placeholderIndex := placeholderIndex st + 1 \<rparr>"
  using assms by (simp add: protect_entry_hit protect_wf_fresh)

lemma protect_wf_init: "protect_wf (protect_init text)"
  by (simp add: protect_wf_def protect_init_def)

lemma protect_wf_step: "protect_wf st \<Longrightarrow> protect_wf (protect_entry st ke)"
proof (cases ke)
  case (Pair k e)
  assume wf: "protect_wf st"
  show ?thesis
  proof (cases "js_includes (protectedText st) k")
    case True
    show ?thesis
      unfolding Pair protect_wf_hit [OF wf True]
      using wf by (simp add: protect_wf_def)
  next
    case False
    then show ?thesis using wf Pair by (simp add: protect_entry_miss)
  qed
qed

lemma protect_wf_fold: "protect_wf st \<Longrightarrow> protect_wf (foldl protect_entry st es)"
  by (induction es arbitrary: st) (auto simp: protect_wf_step)

lemma found_step_subset:
  "set (foundProperNouns (protect_entry st ke)) \<subseteq> insert (fst ke) (set (foundProperNouns st))"
  by (cases ke) (auto simp: protect_entry_def)

lemma found_fold_subset:
  "set (foundProperNouns (foldl protect_entry st es)) \<subseteq> fst ` set es \<union> set (foundProperNouns st)"
proof (induction es arbitrary: st)
  case Nil
  then show ?case by simp
next
  case (Cons a es)
  show ?case
    using Cons [of "protect_entry st a"] found_step_subset [of st a] by auto
qed

lemma resolved_step:
  assumes pf: "placeholder_safe j" and r: "resolved j r st"
  shows "resolved j r (protect_entry st ke)"
proof (cases ke)
  case (Pair k e)
  have wf: "protect_wf st" and ab: "\<not> sublist j (protectedText st)"
    using r by (simp_all add: resolved_def)
  show ?thesis
  proof (cases "js_includes (protectedText st) k")
    case False
    then show ?thesis using r Pair by (simp add: protect_entry_miss)
  next
    case True
    then have kj: "k \<noteq> j"
      using ab by (auto simp: js_includes_sublist)
    have wf': "protect_wf (protect_entry st ke)"
      using wf by (rule protect_wf_step)
    have ab': "\<not> sublist j (protectedText (protect_entry st ke))"
      using pf ab by (rule absent_step)
    have len: "length (placeholderMap st) = length (foundProperNouns st)"
      using wf by (metis protect_wf_def length_map length_upt diff_zero)
    have nth: "placeholderMap (protect_entry st ke) ! n = (placeholder n, r)"
      if "n < length (foundProperNouns (protect_entry st ke))"
        "foundProperNouns (protect_entry st ke) ! n = j" for n
    proof (cases "n < length (foundProperNouns st)")
      case True
      then show ?thesis
        using that r len unfolding Pair protect_wf_hit [OF wf \<open>js_includes (protectedText st) k\<close>]
        by (simp add: nth_append resolved_def)
    next
      case False
      then show ?thesis
        using that kj unfolding Pair protect_wf_hit [OF wf \<open>js_includes (protectedText st) k\<close>]
        by (simp add: nth_append less_Suc_eq)
    qed
    have cnt: "count_list (foundProperNouns (protect_entry st ke)) j \<le> 1"
      using r kj unfolding Pair protect_wf_hit [OF wf True]
      by (simp add: resolved_def)
    show ?thesis
      unfolding resolved_def using wf' ab' cnt nth by blast
  qed
qed

lemma resolved_fold:
  "placeholder_safe j \<Longrightarrow> resolved j r st \<Longrightarrow> resolved j r (foldl protect_entry st es)"
  by (induction es arbitrary: st) (auto simp: resolved_step)

lemma resolved_first:
  assumes pf: "placeholder_safe j" and wf: "protect_wf st" and nf: "j \<notin> set (foundProperNouns st)"
  shows "resolved j (en e) (protect_entry st (j, e))"
proof (cases "js_includes (protectedText st) j")
  case False
  have "foundProperNouns st ! n \<noteq> j" if "n < length (foundProperNouns st)" for n
    using nf that by (metis nth_mem)
  then show ?thesis
    using False wf nf by (simp add: protect_entry_miss resolved_def js_includes_sublist)
next
  case True
  have len: "length (placeholderMap st) = length (foundProperNouns st)"
    using wf by (metis protect_wf_def length_map length_upt diff_zero)
  have idx: "length (foundProperNouns st) = placeholderIndex st"
    using wf by (simp add: protect_wf_def)
  have wf': "protect_wf (protect_entry st (j, e))"
    using wf by (rule protect_wf_step)
  have ab': "\<not> sublist j (protectedText (protect_entry st (j, e)))"
    using pf by (rule absent_own)
  have cnt: "count_list (foundProperNouns (protect_entry st (j, e))) j \<le> 1"
    using nf unfolding protect_wf_hit [OF wf True] by simp
  have nth: "placeholderMap (protect_entry st (j, e)) ! n = (placeholder n, en e)"
    if "n < length (foundProperNouns (protect_entry st (j, e)))"
      "foundProperNouns (protect_entry st (j, e)) ! n = j" for n
  proof (cases "n < length (foundProperNouns st)")
    case True
    then have "foundProperNouns st ! n \<noteq> j"
      using nf by (metis nth_mem)
    then show ?thesis
      using that True unfolding protect_wf_hit [OF wf \<open>js_includes (protectedText st) j\<close>]
      by (simp add: nth_append)
  next
    case False
    then have "n = length (foundProperNouns st)"
      using that(1) unfolding protect_wf_hit [OF wf \<open>js_includes (protectedText st) j\<close>]
      by simp
    then show ?thesis
      using len idx unfolding protect_wf_hit [OF wf \<open>js_includes (protectedText st) j\<close>]
      by (simp add: nth_append)
  qed
  show ?thesis
    unfolding resolved_def using wf' ab' cnt nth by blast
qed

lemma map_of_first:
  "map_of xs k = Some v \<Longrightarrow> \<exists>pre post. xs = pre @ (k, v) # post \<and> k \<notin> fst ` set pre"
proof (induction xs)
  case Nil
  then show ?case by simp
next
  case (Cons a xs)
  show ?case
  proof (cases "fst a = k")
    case True
    then have "a = (k, v)" using Cons.prems by (cases a) auto
    then have "a # xs = [] @ (k, v) # xs \<and> k \<notin> fst ` set []" by simp
    then show ?thesis by blast
  next
    case False
    then have "map_of xs k = Some v" using Cons.prems by (cases a) auto
    then obtain pre post where "xs = pre @ (k, v) # post" "k \<notin> fst ` set pre"
      using Cons.IH by blast
    then have "a # xs = (a # pre) @ (k, v) # post \<and> k \<notin> fst ` set (a # pre)"
      using False by auto
    then show ?thesis by blast
  qed
qed

lemma protect_resolved:
  assumes pf: "placeholder_safe j" and mo: "map_of (concat (map snd g)) j = Some e"
  shows "resolved j (en e) (protectProperNouns text g)"
proof -
  obtain pre post where sp: "concat (map snd g) = pre @ (j, e) # post" and np: "j \<notin> fst ` set pre"
    using map_of_first [OF mo] by blast
  let ?st = "foldl protect_entry (protect_init text) pre"
  have wf: "protect_wf ?st"
    using protect_wf_init by (rule protect_wf_fold)
  have "j \<notin> set (foundProperNouns ?st)"
    using found_fold_subset [of "protect_init text" pre] np by (auto simp: protect_init_def)
  then have "resolved j (en e) (protect_entry ?st (j, e))"
    using resolved_first [OF pf wf] by blast
  then have "resolved j (en e) (foldl protect_entry (protect_entry ?st (j, e)) post)"
    using resolved_fold [OF pf] by blast
  then show ?thesis
    by (simp add: protectProperNouns_flat sp)
qed

lemma decimal_small: "decimal 0 = [48]" "decimal 1 = [49]" "decimal (Suc 0) = [49]"
  by (simp_all add: decimal.simps)

lemmas protect_eval = protectProperNouns_def protect_category_def protect_entry_def
  protect_init_def replaceAll_def replaceAll_from.simps placeholder_def decimal_small

lemma fold_no_hit:
  "list_all (\<lambda>ke. \<not> js_includes (protectedText st) (fst ke)) pre \<Longrightarrow> foldl protect_entry st pre = st"
  by (induction pre) (auto simp: protect_entry_def)

section \<open>Facts about splitting into sentences\<close>

text \<open>The splitter, one code unit at a time: the form in which concrete texts are evaluated.\<close>

lemma split_sep_Nil: "split_sep [] = [[]]"
  by (subst split_sep.simps) simp

lemma split_sep_Cons:
  "split_sep (c # s) =
     (if is_sep c then [] # takeWhile is_sep (c # s) # split_sep (dropWhile is_sep s)
      else (case split_sep s of [] \<Rightarrow> [[c]] | x # xs \<Rightarrow> (c # x) # xs))"
proof (cases "is_sep c")
  case True
  then show ?thesis
    by (subst split_sep.simps) simp
next
  case False
  show ?thesis
  proof (cases "dropWhile (\<lambda>c. \<not> is_sep c) s")
    case Nil
    have "split_sep s = [s]"
      by (subst split_sep.simps) (simp add: Nil)
    moreover have "split_sep (c # s) = [c # s]"
      using False by (subst split_sep.simps) (simp add: Nil)
    ultimately show ?thesis
      using False by simp
  next
    case (Cons d r)
    have "split_sep s = takeWhile (\<lambda>c. \<not> is_sep c) s # takeWhile is_sep (d # r)
                 # split_sep (dropWhile is_sep (d # r))"
      by (subst split_sep.simps) (simp add: Cons)
    moreover have "split_sep (c # s) = (c # takeWhile (\<lambda>c. \<not> is_sep c) s) # takeWhile is_sep (d # r)
                 # split_sep (dropWhile is_sep (d # r))"
      using False by (subst split_sep.simps) (simp add: Cons)
    ultimately show ?thesis
      using False by simp
  qed
qed

lemmas seg_eval = splitIntoSentences_def split_sep_Nil split_sep_Cons trim_def is_ws_def
  is_sep_def is_punct_def merge_step_def is_pure_punct_def


lemma split_sep_no_sep: "list_all (\<lambda>c. \<not> is_sep c) s \<Longrightarrow> split_sep s = [s]"
proof -
  assume "list_all (\<lambda>c. \<not> is_sep c) s"
  then have d: "dropWhile (\<lambda>c. \<not> is_sep c) s = []"
    by (simp add: list_all_iff)
  show ?thesis
    by (subst split_sep.simps) (simp add: d)
qed

lemma split_sep_trailing:
  assumes w: "list_all (\<lambda>c. \<not> is_sep c) w" and p: "list_all is_sep p" and ne: "p \<noteq> []"
  shows "split_sep (w @ p) = [w, p, []]"
proof -
  obtain c r where cr: "p = c # r"
    using ne by (cases p) auto
  have c: "is_sep c"
    using p cr by simp
  have d: "dropWhile (\<lambda>c. \<not> is_sep c) (w @ p) = c # r"
    using w c cr by (simp add: dropWhile_append list_all_iff)
  have t: "takeWhile (\<lambda>c. \<not> is_sep c) (w @ p) = w"
    using w c cr by (simp add: takeWhile_append list_all_iff)
  have t2: "takeWhile is_sep (c # r) = p" "dropWhile is_sep (c # r) = []"
    using p cr by (simp_all add: list_all_iff)
  show ?thesis
    by (subst split_sep.simps) (simp add: d t t2 split_sep_Nil del: takeWhile.simps dropWhile.simps)
qed

lemma set_trim: "set (trim s) \<subseteq> set s"
proof -
  have "set (trim s) \<subseteq> set (dropWhile is_ws s)"
    unfolding trim_def using set_dropWhileD [of _ is_ws "rev (dropWhile is_ws s)"] by auto
  also have "\<dots> \<subseteq> set s"
    using set_dropWhileD [of _ is_ws s] by auto
  finally show ?thesis .
qed

lemma trim_id: "s \<noteq> [] \<Longrightarrow> \<not> is_ws (hd s) \<Longrightarrow> \<not> is_ws (last s) \<Longrightarrow> trim s = s"
proof -
  assume a: "s \<noteq> []" "\<not> is_ws (hd s)" "\<not> is_ws (last s)"
  then have "dropWhile is_ws s = s"
    by (cases s) auto
  moreover have "dropWhile is_ws (rev s) = rev s"
    using a by (cases "rev s") (auto simp: hd_rev [symmetric] simp del: rev_is_Nil_conv)
  ultimately show ?thesis
    by (simp add: trim_def)
qed

lemma trim_Nil: "trim [] = []"
  by (simp add: trim_def)

lemma punct_not_ws: "is_punct c \<Longrightarrow> \<not> is_ws c"
  by (auto simp: is_punct_def is_ws_def)

lemma punct_sep: "is_punct c \<Longrightarrow> is_sep c"
  by (simp add: is_sep_def)

lemma trim_punct: "list_all is_punct p \<Longrightarrow> trim p = p"
proof (cases "p = []")
  case True
  then show ?thesis by (simp add: trim_Nil)
next
  case False
  assume "list_all is_punct p"
  then have "\<not> is_ws (hd p)" "\<not> is_ws (last p)"
    using False by (auto simp: list_all_iff punct_not_ws)
  then show ?thesis
    using False by (simp add: trim_id)
qed

lemma not_pure_punct: "list_all (\<lambda>c. \<not> is_sep c) s \<Longrightarrow> \<not> is_pure_punct s"
  by (cases s) (auto simp: is_pure_punct_def punct_sep)

lemma seg_no_sep:
  assumes "list_all (\<lambda>c. \<not> is_sep c) s"
  shows "splitIntoSentences s = (if trim s = [] then [] else [trim s])"
proof -
  have "list_all (\<lambda>c. \<not> is_sep c) (trim s)"
    using assms set_trim [of s] by (auto simp: list_all_iff)
  then have "\<not> is_pure_punct (trim s)"
    by (rule not_pure_punct)
  then show ?thesis
    by (simp add: splitIntoSentences_def split_sep_no_sep [OF assms] merge_step_def)
qed

lemma seg_trailing:
  assumes w: "list_all (\<lambda>c. \<not> is_sep c) w" and wne: "w \<noteq> []"
    and h: "\<not> is_ws (hd w)" and l: "\<not> is_ws (last w)" and p: "list_all is_punct p"
  shows "splitIntoSentences (w @ p) = [w @ p]"
proof (cases "p = []")
  case True
  then show ?thesis
    using seg_no_sep [OF w] trim_id [OF wne h l] wne by simp
next
  case False
  have ps: "list_all is_sep p"
    using p by (auto simp: list_all_iff punct_sep)
  have pp: "is_pure_punct p"
    using p False by (simp add: is_pure_punct_def)
  have np: "\<not> is_pure_punct w"
    using w by (rule not_pure_punct)
  show ?thesis
    using False wne np pp
    by (simp add: splitIntoSentences_def split_sep_trailing [OF w ps False] trim_id [OF wne h l]
        trim_punct [OF p] trim_Nil merge_step_def)
qed

section \<open>Replacements that respect the splitter\<close>

lemma seg_hom_barrier: "seg_hom R \<Longrightarrow> \<not> plainc c \<Longrightarrow> R (u @ c # v) = R u @ c # R v"
  by (simp add: seg_hom_def)

lemma seg_hom_Nil: "seg_hom R \<Longrightarrow> R [] = []"
  by (simp add: seg_hom_def)

lemma seg_hom_plain: "seg_hom R \<Longrightarrow> list_all plainc u \<Longrightarrow> list_all plainc (R u)"
  by (simp add: seg_hom_def)

lemma seg_hom_plain_ne: "seg_hom R \<Longrightarrow> list_all plainc u \<Longrightarrow> u \<noteq> [] \<Longrightarrow> R u \<noteq> []"
  by (simp add: seg_hom_def)

lemma seg_hom_Cons: "seg_hom R \<Longrightarrow> \<not> plainc c \<Longrightarrow> R (c # v) = c # R v"
  using seg_hom_barrier [of R c "[]" v] by (simp add: seg_hom_Nil)

lemma seg_hom_fix: "seg_hom R \<Longrightarrow> list_all (\<lambda>c. \<not> plainc c) s \<Longrightarrow> R s = s"
  by (induction s) (auto simp: seg_hom_Nil seg_hom_Cons)

lemma seg_hom_pre: "seg_hom R \<Longrightarrow> list_all (\<lambda>c. \<not> plainc c) p \<Longrightarrow> R (p @ v) = p @ R v"
  by (induction p) (auto simp: seg_hom_Cons)

lemma seg_hom_mid:
  assumes "seg_hom R" "list_all (\<lambda>c. \<not> plainc c) p" "p \<noteq> []"
  shows "R (u @ p @ v) = R u @ p @ R v"
proof -
  obtain c p' where p: "p = c # p'"
    using assms(3) by (cases p) auto
  then have c: "\<not> plainc c" and p': "list_all (\<lambda>c. \<not> plainc c) p'"
    using assms(2) by simp_all
  have "R (u @ c # (p' @ v)) = R u @ c # R (p' @ v)"
    using assms(1) c by (rule seg_hom_barrier)
  then show ?thesis
    using seg_hom_pre [OF assms(1) p'] p by simp
qed

lemma seg_hom_suf:
  assumes "seg_hom R" "list_all (\<lambda>c. \<not> plainc c) p"
  shows "R (u @ p) = R u @ p"
proof (cases "p = []")
  case True
  then show ?thesis by simp
next
  case False
  then show ?thesis
    using seg_hom_mid [OF assms False, of u "[]"] assms(1) by (simp add: seg_hom_Nil)
qed

text \<open>A text is all plain, or has a first code unit that is not.\<close>

lemma plain_split:
  obtains (plain) "list_all plainc s"
  | (split) a c v where "s = a @ c # v" "list_all plainc a" "\<not> plainc c"
proof (cases "list_all plainc s")
  case True
  then show ?thesis by (rule plain)
next
  case False
  then obtain a c v where "s = a @ c # v" "\<not> plainc c" "\<forall>x \<in> set a. plainc x"
    using split_list_first_prop [of s "\<lambda>c. \<not> plainc c"] by (auto simp: list_all_iff)
  then show ?thesis
    using split by (auto simp: list_all_iff)
qed

lemma plain_split_last:
  obtains (plain) "list_all plainc s"
  | (split) a c v where "s = a @ c # v" "list_all plainc v" "\<not> plainc c"
proof (cases "list_all plainc s")
  case True
  then show ?thesis by (rule plain)
next
  case False
  then obtain a c v where "s = a @ c # v" "\<not> plainc c" "\<forall>x \<in> set v. plainc x"
    using split_list_last_prop [of s "\<lambda>c. \<not> plainc c"] by (auto simp: list_all_iff)
  then show ?thesis
    using split by (auto simp: list_all_iff)
qed

lemma seg_hom_eq_Nil:
  assumes "seg_hom R"
  shows "R s = [] \<longleftrightarrow> s = []"
proof (cases s rule: plain_split)
  case plain
  then show ?thesis
    using seg_hom_plain_ne [OF assms plain] seg_hom_Nil [OF assms] by auto
next
  case (split a c v)
  then show ?thesis
    using seg_hom_barrier [OF assms split(3), of a v] by simp
qed

lemma seg_hom_filter:
  assumes "seg_hom R"
  shows "filter (\<lambda>c. \<not> plainc c) (R s) = filter (\<lambda>c. \<not> plainc c) s"
proof (induction s rule: length_induct)
  case (1 s)
  show ?case
  proof (cases s rule: plain_split)
    case plain
    then have "list_all plainc (R s)"
      using assms by (rule seg_hom_plain [rotated])
    then show ?thesis
      using plain by (simp add: list_all_iff filter_empty_conv)
  next
    case (split a c v)
    have "list_all plainc (R a)"
      using assms split(2) by (rule seg_hom_plain)
    moreover have "filter (\<lambda>c. \<not> plainc c) (R v) = filter (\<lambda>c. \<not> plainc c) v"
      using 1 split(1) by simp
    ultimately show ?thesis
      using split seg_hom_barrier [OF assms split(3), of a v]
      by (simp add: list_all_iff filter_empty_conv)
  qed
qed

lemma seg_hom_nonplain_mem:
  assumes "seg_hom R" "c \<in> set (R s)" "\<not> plainc c"
  shows "c \<in> set s"
proof -
  have "c \<in> set (filter (\<lambda>c. \<not> plainc c) (R s))"
    using assms(2,3) by simp
  then have "c \<in> set (filter (\<lambda>c. \<not> plainc c) s)"
    by (simp only: seg_hom_filter [OF assms(1)])
  then show ?thesis by simp
qed

lemma seg_hom_hd:
  assumes "seg_hom R" "s \<noteq> []"
  shows "R s \<noteq> [] \<and> (if plainc (hd s) then plainc (hd (R s)) else hd (R s) = hd s)"
proof (cases s rule: plain_split)
  case plain
  then have "list_all plainc (R s)" "R s \<noteq> []"
    using assms seg_hom_plain seg_hom_plain_ne by blast+
  moreover have "plainc (hd s)"
    using plain assms(2) by (cases s) auto
  ultimately show ?thesis
    by (cases "R s") auto
next
  case (split a c v)
  have eq: "R s = R a @ c # R v"
    using seg_hom_barrier [OF assms(1) split(3), of a v] split(1) by simp
  show ?thesis
  proof (cases "a = []")
    case True
    then show ?thesis
      using eq split seg_hom_Nil [OF assms(1)] by simp
  next
    case False
    then have "list_all plainc (R a)" "R a \<noteq> []"
      using assms(1) split(2) seg_hom_plain seg_hom_plain_ne by blast+
    moreover have "plainc (hd s)"
      using split False by (cases a) auto
    ultimately show ?thesis
      using eq by (cases "R a") auto
  qed
qed

lemma seg_hom_last:
  assumes "seg_hom R" "s \<noteq> []"
  shows "R s \<noteq> [] \<and> (if plainc (last s) then plainc (last (R s)) else last (R s) = last s)"
proof (cases s rule: plain_split_last)
  case plain
  then have "list_all plainc (R s)" "R s \<noteq> []"
    using assms seg_hom_plain seg_hom_plain_ne by blast+
  moreover have "plainc (last s)"
    using plain assms(2) by (simp add: list_all_iff)
  ultimately show ?thesis
    by (simp add: list_all_iff)
next
  case (split a c v)
  have eq: "R s = R a @ c # R v"
    using seg_hom_barrier [OF assms(1) split(3), of a v] split(1) by simp
  show ?thesis
  proof (cases "v = []")
    case True
    then show ?thesis
      using eq split seg_hom_Nil [OF assms(1)] by simp
  next
    case False
    then have "list_all plainc (R v)" "R v \<noteq> []"
      using assms(1) split(2) seg_hom_plain seg_hom_plain_ne by blast+
    moreover have "plainc (last s)"
      using split False by (simp add: list_all_iff)
    ultimately show ?thesis
      using eq by (simp add: list_all_iff)
  qed
qed

lemma sep_not_plain: "is_sep c \<Longrightarrow> \<not> plainc c"
  by (simp add: plainc_def)

lemma seg_hom_trim_free: "seg_hom R \<Longrightarrow> list_all plainc u \<Longrightarrow> trim (R u) = R (trim u)"
  by (simp add: seg_hom_def)

lemma seg_hom_hd_sep:
  assumes "seg_hom R" "s \<noteq> []" "\<not> is_sep (hd s)"
  shows "R s \<noteq> [] \<and> \<not> is_sep (hd (R s))"
  using seg_hom_hd [OF assms(1,2)] assms(3)
  by (auto simp: plainc_def split: if_splits)

text \<open>The splitter on a text whose first run of the class is known.\<close>

lemma split_sep_run:
  assumes w: "list_all (\<lambda>c. \<not> is_sep c) w" and p: "list_all is_sep p" and ne: "p \<noteq> []"
    and r: "rest = [] \<or> \<not> is_sep (hd rest)"
  shows "split_sep (w @ p @ rest) = w # p # split_sep rest"
proof -
  obtain c q where cq: "p = c # q"
    using ne by (cases p) auto
  have c: "is_sep c"
    using p cq by simp
  have d: "dropWhile (\<lambda>c. \<not> is_sep c) (w @ p @ rest) = c # (q @ rest)"
    using w c cq by (simp add: dropWhile_append list_all_iff)
  have t: "takeWhile (\<lambda>c. \<not> is_sep c) (w @ p @ rest) = w"
    using w c cq by (simp add: takeWhile_append list_all_iff)
  have t2: "takeWhile is_sep (c # (q @ rest)) = p"
  proof -
    have "takeWhile is_sep (p @ rest) = p"
      using p r by (cases rest) (auto simp: takeWhile_append list_all_iff)
    then show ?thesis using cq by simp
  qed
  have d2: "dropWhile is_sep (c # (q @ rest)) = rest"
  proof -
    have "dropWhile is_sep (p @ rest) = rest"
      using p r by (cases rest) (auto simp: dropWhile_append list_all_iff)
    then show ?thesis using cq by simp
  qed
  show ?thesis
    by (subst split_sep.simps) (simp add: d t t2 d2 del: takeWhile.simps dropWhile.simps)
qed

lemma seg_hom_no_sep:
  assumes "seg_hom R" "list_all (\<lambda>c. \<not> is_sep c) w"
  shows "list_all (\<lambda>c. \<not> is_sep c) (R w)"
  using seg_hom_nonplain_mem [OF assms(1)] assms(2) sep_not_plain
  by (auto simp: list_all_iff)

lemma seg_hom_split_sep:
  assumes "seg_hom R"
  shows "split_sep (R s) = map R (split_sep s)"
proof (induction s rule: length_induct)
  case (1 s)
  define w where "w = takeWhile (\<lambda>c. \<not> is_sep c) s"
  define t where "t = dropWhile (\<lambda>c. \<not> is_sep c) s"
  have s: "s = w @ t"
    by (simp add: w_def t_def)
  have w: "list_all (\<lambda>c. \<not> is_sep c) w"
    unfolding w_def list_all_iff using set_takeWhileD by fastforce
  show ?case
  proof (cases "t = []")
    case True
    then have "list_all (\<lambda>c. \<not> is_sep c) s"
      using s w by simp
    then show ?thesis
      using seg_hom_no_sep [OF assms] by (simp add: split_sep_no_sep)
  next
    case False
    define p where "p = takeWhile is_sep t"
    define rest where "rest = dropWhile is_sep t"
    have t: "t = p @ rest"
      by (simp add: p_def rest_def)
    have hd: "is_sep (hd t)"
      using False hd_dropWhile [of "\<lambda>c. \<not> is_sep c" s] by (simp add: t_def)
    then have pne: "p \<noteq> []"
      using False by (cases t) (auto simp: p_def)
    have p: "list_all is_sep p"
      unfolding p_def list_all_iff using set_takeWhileD by fastforce
    have r: "rest = [] \<or> \<not> is_sep (hd rest)"
      using hd_dropWhile [of is_sep t] by (auto simp: rest_def)
    have np: "list_all (\<lambda>c. \<not> plainc c) p"
      using p sep_not_plain by (auto simp: list_all_iff)
    have Rs: "R s = R w @ p @ R rest"
      using seg_hom_mid [OF assms np pne, of w rest] s t by simp
    have Rw: "list_all (\<lambda>c. \<not> is_sep c) (R w)"
      using seg_hom_no_sep [OF assms w] .
    have Rr: "R rest = [] \<or> \<not> is_sep (hd (R rest))"
    proof (cases "rest = []")
      case True
      then show ?thesis by (simp add: seg_hom_Nil [OF assms])
    next
      case False
      then show ?thesis
        using seg_hom_hd_sep [OF assms False] r by simp
    qed
    have len: "length rest < length s"
      using s t pne by simp
    have "split_sep (R s) = R w # p # split_sep (R rest)"
      unfolding Rs using Rw p pne Rr by (rule split_sep_run)
    moreover have "split_sep s = w # p # split_sep rest"
      unfolding s t using w p pne r by (rule split_sep_run)
    moreover have "split_sep (R rest) = map R (split_sep rest)"
      using 1 len by blast
    moreover have "R p = p"
      using seg_hom_fix [OF assms np] .
    ultimately show ?thesis
      by simp
  qed
qed

lemma seg_hom_all_nonplain:
  assumes "seg_hom R"
  shows "list_all (\<lambda>c. \<not> plainc c) (R s) \<Longrightarrow> list_all (\<lambda>c. \<not> plainc c) s"
proof -
  assume a: "list_all (\<lambda>c. \<not> plainc c) (R s)"
  then have "filter (\<lambda>c. \<not> plainc c) (R s) = R s"
    by (simp add: list_all_iff)
  then have f: "filter (\<lambda>c. \<not> plainc c) s = R s"
    by (simp add: seg_hom_filter [OF assms])
  show ?thesis
  proof (rule ccontr)
    assume "\<not> list_all (\<lambda>c. \<not> plainc c) s"
    then have "\<exists>x \<in> set s. plainc x"
      by (auto simp: list_all_iff)
    then obtain u x v where uv: "s = u @ x # v" "\<forall>y \<in> set u. \<not> plainc y" and x: "plainc x"
      using split_list_first_prop [of s plainc] by blast
    define b where "b = takeWhile plainc (x # v)"
    define r where "r = dropWhile plainc (x # v)"
    have xv: "x # v = b @ r" by (simp add: b_def r_def)
    have bne: "b \<noteq> []" using x by (simp add: b_def)
    have bp: "list_all plainc b"
      unfolding b_def list_all_iff using set_takeWhileD by fastforce
    have rr: "r = [] \<or> \<not> plainc (hd r)"
      using hd_dropWhile [of plainc "x # v"] unfolding r_def by blast
    have Rb: "R b \<noteq> []" "list_all plainc (R b)"
      using seg_hom_plain_ne [OF assms bp bne] seg_hom_plain [OF assms bp] by simp_all
    have "\<exists>y \<in> set (R (b @ r)). plainc y"
    proof (cases r)
      case Nil
      then show ?thesis using Rb by (cases "R b") auto
    next
      case (Cons c r')
      then have "\<not> plainc c" using rr by simp
      then have "R (b @ c # r') = R b @ c # R r'"
        using assms by (rule seg_hom_barrier [rotated])
      then show ?thesis using Rb Cons by (cases "R b") auto
    qed
    moreover have "R s = u @ R (b @ r)"
      using seg_hom_pre [OF assms, of u "x # v"] uv xv by (simp add: list_all_iff)
    ultimately show False
      using a by (auto simp: list_all_iff)
  qed
qed

lemma punct_not_plain: "is_punct c \<Longrightarrow> \<not> plainc c"
  by (simp add: plainc_def is_sep_def)

lemma seg_hom_pure_punct:
  assumes "seg_hom R"
  shows "is_pure_punct (R x) \<longleftrightarrow> is_pure_punct x"
proof
  assume pp: "is_pure_punct x"
  then have "list_all (\<lambda>c. \<not> plainc c) x"
    using punct_not_plain by (auto simp: is_pure_punct_def list_all_iff)
  then have "R x = x" using assms by (rule seg_hom_fix [rotated])
  then show "is_pure_punct (R x)" using pp by simp
next
  assume pp: "is_pure_punct (R x)"
  then have "list_all (\<lambda>c. \<not> plainc c) (R x)"
    using punct_not_plain by (auto simp: is_pure_punct_def list_all_iff)
  then have "list_all (\<lambda>c. \<not> plainc c) x"
    using assms by (rule seg_hom_all_nonplain [rotated])
  then have "R x = x" using assms by (rule seg_hom_fix [rotated])
  then show "is_pure_punct x" using pp by simp
qed

lemma seg_hom_merge_step:
  assumes "seg_hom R"
  shows "merge_step (map R acc) (R x) = map R (merge_step acc x)"
proof (cases "is_pure_punct x")
  case True
  then have np: "list_all (\<lambda>c. \<not> plainc c) x"
    using punct_not_plain by (auto simp: is_pure_punct_def list_all_iff)
  then have fx: "R x = x" using assms by (rule seg_hom_fix [rotated])
  show ?thesis
  proof (cases "acc = []")
    case True
    then show ?thesis using \<open>is_pure_punct x\<close> fx by (simp add: merge_step_def)
  next
    case False
    have "R (last acc @ x) = R (last acc) @ x"
      using seg_hom_suf [OF assms np] .
    then show ?thesis
      using \<open>is_pure_punct x\<close> fx False by (simp add: merge_step_def map_butlast last_map)
  qed
next
  case False
  then have "\<not> is_pure_punct (R x)"
    using seg_hom_pure_punct [OF assms] by simp
  then show ?thesis using False by (simp add: merge_step_def)
qed

lemma seg_hom_merge:
  assumes "seg_hom R"
  shows "foldl merge_step (map R acc) (map R xs) = map R (foldl merge_step acc xs)"
proof (induction xs arbitrary: acc)
  case Nil
  then show ?case by simp
next
  case (Cons x xs)
  show ?case
    using Cons [of "merge_step acc x"] by (simp add: seg_hom_merge_step [OF assms])
qed

lemma split_sep_pieces:
  "x \<in> set (split_sep s) \<Longrightarrow> list_all plainc x \<or> list_all (\<lambda>c. \<not> plainc c) x"
proof (induction s arbitrary: x rule: split_sep.induct)
  case (1 s)
  show ?case
  proof (cases "dropWhile (\<lambda>c. \<not> is_sep c) s")
    case Nil
    have "split_sep s = [s]"
      by (subst split_sep.simps) (simp add: Nil)
    moreover have "list_all plainc s"
      using Nil by (simp add: list_all_iff plainc_def)
    ultimately show ?thesis using 1(2) by simp
  next
    case (Cons c r)
    have sp: "split_sep s = takeWhile (\<lambda>c. \<not> is_sep c) s # takeWhile is_sep (c # r)
                 # split_sep (dropWhile is_sep (c # r))"
      by (subst split_sep.simps) (simp add: Cons)
    have a: "list_all plainc (takeWhile (\<lambda>c. \<not> is_sep c) s)"
      unfolding list_all_iff plainc_def using set_takeWhileD by fastforce
    have b: "list_all (\<lambda>c. \<not> plainc c) (takeWhile is_sep (c # r))"
      unfolding list_all_iff plainc_def using set_takeWhileD by fastforce
    from 1(2) sp consider "x = takeWhile (\<lambda>c. \<not> is_sep c) s" | "x = takeWhile is_sep (c # r)"
      | "x \<in> set (split_sep (dropWhile is_sep (c # r)))"
      by auto
    then show ?thesis
    proof cases
      case 1
      then show ?thesis using a by simp
    next
      case 2
      then show ?thesis using b by simp
    next
      case 3
      then show ?thesis using "1.IH" [OF Cons] by blast
    qed
  qed
qed

lemma seg_hom_trim_piece:
  assumes "seg_hom R" "list_all plainc x \<or> list_all (\<lambda>c. \<not> plainc c) x"
  shows "trim (R x) = R (trim x)"
proof (cases "list_all plainc x")
  case True
  then show ?thesis using assms(1) by (rule seg_hom_trim_free [rotated])
next
  case False
  then have x: "list_all (\<lambda>c. \<not> plainc c) x"
    using assms(2) by blast
  then have "list_all (\<lambda>c. \<not> plainc c) (trim x)"
    using set_trim [of x] by (auto simp: list_all_iff)
  then show ?thesis
    using x by (simp add: seg_hom_fix [OF assms(1)])
qed

lemma seg_hom_sentences:
  assumes "seg_hom R"
  shows "splitIntoSentences (R s) = map R (splitIntoSentences s)"
proof -
  have a: "map trim (filter (\<lambda>x. 0 < length (trim x)) (map R xs))
      = map R (map trim (filter (\<lambda>x. 0 < length (trim x)) xs))"
    if "\<forall>x \<in> set xs. list_all plainc x \<or> list_all (\<lambda>c. \<not> plainc c) x" for xs
    using that
    by (induction xs) (auto simp: seg_hom_trim_piece [OF assms] seg_hom_eq_Nil [OF assms])
  have b: "filter (\<lambda>x. 0 < length x) (map R ys) = map R (filter (\<lambda>x. 0 < length x) ys)" for ys
    by (induction ys) (auto simp: seg_hom_eq_Nil [OF assms])
  have c: "foldl merge_step [] (map R xs) = map R (foldl merge_step [] xs)" for xs
    using seg_hom_merge [OF assms, of "[]" xs] by simp
  have a': "map trim (filter (\<lambda>x. 0 < length (trim x)) (map R (split_sep s)))
      = map R (map trim (filter (\<lambda>x. 0 < length (trim x)) (split_sep s)))"
    using split_sep_pieces by (intro a) blast
  show ?thesis
    unfolding splitIntoSentences_def Let_def
    by (simp only: seg_hom_split_sep [OF assms] a' b c)
qed

lemma rp_set: "pat \<noteq> [] \<Longrightarrow> set (replace_plain pat rep s) \<subseteq> set s \<union> set rep"
proof (induction s rule: length_induct)
  case (1 s)
  show ?case
  proof (cases pat rep s rule: rp_cases)
    case nil
    then show ?thesis by simp
  next
    case (match s')
    then have "length s' < length s" by (cases pat) auto
    then have "set (replace_plain pat rep s') \<subseteq> set s' \<union> set rep"
      using 1 by blast
    then show ?thesis using match by auto
  next
    case (skip c s')
    then have "set (replace_plain pat rep s') \<subseteq> set s' \<union> set rep"
      using 1 by simp
    then show ?thesis using skip by auto
  next
    case enil
    then show ?thesis using 1(2) by simp
  next
    case (econs c s')
    then show ?thesis using 1(2) by simp
  qed
qed

lemma rp_not_Nil: "rep \<noteq> [] \<Longrightarrow> s \<noteq> [] \<Longrightarrow> replace_plain pat rep s \<noteq> []"
  by (cases pat rep s rule: rp_cases) auto


lemma rp_no_match:
  assumes "pat \<noteq> []" "hd pat \<notin> set w"
  shows "replace_plain pat rep w = w"
proof -
  have "list_all (\<lambda>c. c \<noteq> hd pat) w"
    using assms(2) by (auto simp: list_all_iff)
  then have "replace_plain pat rep (w @ []) = w @ replace_plain pat rep []"
    using assms(1) by (intro rp_skip_run)
  then show ?thesis
    using assms(1) by (simp add: rp_Nil)
qed

lemma rp_no_last:
  "pat \<noteq> [] \<Longrightarrow> last pat \<notin> set w \<Longrightarrow> replace_plain pat rep w = w"
proof (induction w)
  case Nil
  then show ?case by (simp add: rp_Nil)
next
  case (Cons c w)
  have np: "\<not> prefix pat (c # w)"
  proof
    assume "prefix pat (c # w)"
    then have "set pat \<subseteq> set (c # w)" by (rule set_mono_prefix)
    moreover have "last pat \<in> set pat" using Cons.prems(1) by simp
    ultimately show False using Cons.prems(2) by auto
  qed
  have "last pat \<notin> set w" using Cons.prems(2) by simp
  then show ?case
    using Cons.IH [OF Cons.prems(1)] np by (simp add: rp_skip)
qed

lemma rp_trailing:
  assumes "pat \<noteq> []" "last pat \<notin> set w"
  shows "replace_plain pat rep (x @ w) = replace_plain pat rep x @ w"
proof (induction x rule: length_induct)
  case (1 x)
  have pre: "prefix pat x" if "prefix pat (x @ w)"
  proof (rule ccontr)
    assume np: "\<not> prefix pat x"
    from that have "prefix pat x \<or> (\<exists>us. pat = x @ us \<and> prefix us w)"
      by (simp add: prefix_append)
    with np obtain w' where w': "pat = x @ w'" "prefix w' w"
      by blast
    then have "w' \<noteq> []" using np by auto
    then have "last pat \<in> set w"
      using w' by (metis last_appendR last_in_set set_mono_prefix subsetD)
    then show False using assms(2) by simp
  qed
  show ?case
  proof (cases pat rep x rule: rp_cases)
    case nil
    then show ?thesis
      using rp_no_last [OF assms] by simp
  next
    case (match s')
    then have "length s' < length x" by (cases pat) auto
    then have "replace_plain pat rep (s' @ w) = replace_plain pat rep s' @ w"
      using 1 by blast
    then show ?thesis
      using match rp_match [of pat rep "s' @ w"] by simp
  next
    case (skip c s')
    then have "\<not> prefix pat (c # s' @ w)"
      using pre by auto
    moreover have "replace_plain pat rep (s' @ w) = replace_plain pat rep s' @ w"
      using 1 skip(1) by simp
    ultimately show ?thesis
      using skip by (simp add: rp_skip)
  next
    case enil
    then show ?thesis using assms by simp
  next
    case (econs c s')
    then show ?thesis using assms by simp
  qed
qed

lemma trim_decompose:
  obtains w1 w2 where "x = w1 @ trim x @ w2" "list_all is_ws w1" "list_all is_ws w2"
    "trim x = [] \<or> (\<not> is_ws (hd (trim x)) \<and> \<not> is_ws (last (trim x)))"
proof -
  define y where "y = dropWhile is_ws x"
  define w1 where "w1 = takeWhile is_ws x"
  define w2 where "w2 = rev (takeWhile is_ws (rev y))"
  have t: "trim x = rev (dropWhile is_ws (rev y))"
    by (simp add: trim_def y_def)
  have "rev (takeWhile is_ws (rev y) @ dropWhile is_ws (rev y)) = y"
    by (simp only: takeWhile_dropWhile_id rev_rev_ident)
  then have "rev (dropWhile is_ws (rev y)) @ rev (takeWhile is_ws (rev y)) = y"
    by (simp only: rev_append)
  then have y: "y = trim x @ w2"
    by (simp only: t w2_def)
  have "x = w1 @ y"
    unfolding w1_def y_def by simp
  then have x: "x = w1 @ trim x @ w2"
    using y by metis
  have a: "list_all is_ws w1"
    unfolding w1_def list_all_iff using set_takeWhileD by fastforce
  have b: "list_all is_ws w2"
    unfolding w2_def list_all_iff using set_takeWhileD by fastforce
  have c: "\<not> is_ws (hd (trim x)) \<and> \<not> is_ws (last (trim x))" if ne: "trim x \<noteq> []"
  proof -
    have d: "dropWhile is_ws (rev y) \<noteq> []"
      using ne t by simp
    then have l: "\<not> is_ws (last (trim x))"
      using hd_dropWhile [OF d] by (simp add: t last_rev)
    have "y \<noteq> []" using d by auto
    then have hy: "\<not> is_ws (hd y)"
      unfolding y_def by (rule hd_dropWhile)
    have "hd (trim x) = hd y"
      using y ne by (cases "trim x") auto
    then show ?thesis using l hy by simp
  qed
  show ?thesis
    using that [OF x a b] c by blast
qed

lemma trim_sandwich:
  assumes "list_all is_ws w1" "list_all is_ws w2"
    and "c = [] \<or> (\<not> is_ws (hd c) \<and> \<not> is_ws (last c))"
  shows "trim (w1 @ c @ w2) = c"
proof (cases "c = []")
  case True
  have d: "dropWhile is_ws (w1 @ w2) = []"
    using assms(1,2) by (simp add: list_all_iff)
  show ?thesis
    unfolding True trim_def by (simp only: append_Nil d rev.simps dropWhile.simps)
next
  case False
  then have h: "\<not> is_ws (hd c)" and l: "\<not> is_ws (last c)"
    using assms(3) by simp_all
  have d1: "dropWhile is_ws (w1 @ c @ w2) = c @ w2"
    using assms(1) False h by (cases c) (auto simp: dropWhile_append list_all_iff)
  have "dropWhile is_ws (rev w2 @ rev c) = rev c"
    using assms(2) False l by (cases c rule: rev_cases) (auto simp: dropWhile_append list_all_iff)
  then show ?thesis
    by (simp add: trim_def d1)
qed

lemma rp_leading_ws:
  assumes "pat \<noteq> []" "\<not> is_ws (hd pat)" "list_all is_ws w"
  shows "replace_plain pat rep (w @ x) = w @ replace_plain pat rep x"
proof -
  have "list_all (\<lambda>c. c \<noteq> hd pat) w"
    using assms(2,3) by (auto simp: list_all_iff)
  then show ?thesis
    using assms(1) by (intro rp_skip_run)
qed

lemma rp_trailing_ws:
  assumes "pat \<noteq> []" "\<not> is_ws (last pat)" "list_all is_ws w"
  shows "replace_plain pat rep (x @ w) = replace_plain pat rep x @ w"
proof -
  have "last pat \<notin> set w"
    using assms(2,3) by (auto simp: list_all_iff)
  then show ?thesis
    using assms(1) by (intro rp_trailing)
qed

lemma rp_hd_nonws:
  assumes "rep \<noteq> []" "\<not> is_ws (hd rep)" "x \<noteq> []" "\<not> is_ws (hd x)"
  shows "\<not> is_ws (hd (replace_plain pat rep x))"
  using assms by (cases pat rep x rule: rp_cases) auto

lemma rp_last_nonws:
  assumes "rep \<noteq> []" "\<not> is_ws (last rep)"
  shows "x \<noteq> [] \<Longrightarrow> \<not> is_ws (last x) \<Longrightarrow> \<not> is_ws (last (replace_plain pat rep x))"
proof (induction x rule: length_induct)
  case (1 x)
  note IH = 1(1) and ne = 1(2) and lx = 1(3)
  show ?case
  proof (cases pat rep x rule: rp_cases)
    case nil
    then show ?thesis using ne by simp
  next
    case (match s')
    show ?thesis
    proof (cases "s' = []")
      case True
      then show ?thesis
        using match assms by (simp add: rp_Nil)
    next
      case False
      have "length s' < length x"
        using match by (cases pat) auto
      moreover have "\<not> is_ws (last s')"
        using lx match False by simp
      ultimately have "\<not> is_ws (last (replace_plain pat rep s'))"
        using IH False by blast
      moreover have "replace_plain pat rep s' \<noteq> []"
        using rp_not_Nil [OF assms(1) False] .
      ultimately show ?thesis
        using match by simp
    qed
  next
    case (skip c s')
    show ?thesis
    proof (cases "s' = []")
      case True
      have "pat \<noteq> []"
        using skip(2) by auto
      then show ?thesis
        using skip lx True by (simp add: rp_Nil)
    next
      case False
      have "\<not> is_ws (last s')"
        using lx skip False by simp
      then have "\<not> is_ws (last (replace_plain pat rep s'))"
        using IH False skip(1) by simp
      moreover have "replace_plain pat rep s' \<noteq> []"
        using rp_not_Nil [OF assms(1) False] .
      ultimately show ?thesis
        using skip by simp
    qed
  next
    case enil
    then show ?thesis using ne by simp
  next
    case (econs c s')
    show ?thesis
    proof (cases "s' = []")
      case True
      then show ?thesis
        using econs assms by (simp add: rp_empty_Nil)
    next
      case False
      have "\<not> is_ws (last s')"
        using lx econs False by simp
      then have "\<not> is_ws (last (replace_plain pat rep s'))"
        using IH False econs(2) by simp
      moreover have "replace_plain pat rep s' \<noteq> []"
        using rp_not_Nil [OF assms(1) False] .
      ultimately show ?thesis
        using econs by simp
    qed
  qed
qed

lemma rp_trim:
  assumes j: "j \<noteq> []" "\<not> is_ws (hd j)" "\<not> is_ws (last j)"
    and p: "p \<noteq> []" "\<not> is_ws (hd p)" "\<not> is_ws (last p)"
  shows "trim (replace_plain j p x) = replace_plain j p (trim x)"
proof -
  obtain w1 w2 where x: "x = w1 @ trim x @ w2" and w: "list_all is_ws w1" "list_all is_ws w2"
    and c: "trim x = [] \<or> (\<not> is_ws (hd (trim x)) \<and> \<not> is_ws (last (trim x)))"
    by (rule trim_decompose)
  have "replace_plain j p (w1 @ trim x @ w2) = w1 @ replace_plain j p (trim x @ w2)"
    using j(1,2) w(1) by (rule rp_leading_ws)
  also have "replace_plain j p (trim x @ w2) = replace_plain j p (trim x) @ w2"
    using j(1,3) w(2) by (rule rp_trailing_ws)
  finally have eq: "replace_plain j p x = w1 @ replace_plain j p (trim x) @ w2"
    using x by simp
  have "replace_plain j p (trim x) = [] \<or>
      (\<not> is_ws (hd (replace_plain j p (trim x))) \<and> \<not> is_ws (last (replace_plain j p (trim x))))"
  proof (cases "trim x = []")
    case True
    then show ?thesis using j(1) by (simp add: rp_Nil)
  next
    case False
    then show ?thesis
      using c rp_hd_nonws [OF p(1,2) False] rp_last_nonws [OF p(1,3) False] by blast
  qed
  then have "trim (w1 @ replace_plain j p (trim x) @ w2) = replace_plain j p (trim x)"
    using w by (intro trim_sandwich)
  then show ?thesis
    using eq by simp
qed

lemma seg_hom_replace:
  assumes "inner_term j" "inner_term p"
  shows "seg_hom (replace_plain j p)"
proof -
  have jne: "j \<noteq> []" and pne: "p \<noteq> []"
    using assms by (simp_all add: inner_term_def)
  have a: "replace_plain j p (u @ c # v) = replace_plain j p u @ c # replace_plain j p v"
    if "\<not> plainc c" for u c v
  proof -
    have "c \<notin> set j"
      using that assms(1) by (auto simp: inner_term_def list_all_iff)
    then show ?thesis
      using jne by (rule rp_barrier)
  qed
  have b: "replace_plain j p [] = []"
    using jne by (rule rp_Nil)
  have t: "trim (replace_plain j p u) = replace_plain j p (trim u)" for u
    using assms by (intro rp_trim) (simp_all add: inner_term_def)
  have c: "list_all plainc (replace_plain j p u) \<and> (u \<noteq> [] \<longrightarrow> replace_plain j p u \<noteq> [])"
    if "list_all plainc u" for u
    using that rp_set [OF jne, of p u] assms(2) rp_not_Nil [OF pne, of u j]
    by (auto simp: inner_term_def list_all_iff)
  show ?thesis
    unfolding seg_hom_def using a b c t by blast
qed

lemma seg_hom_id: "seg_hom (\<lambda>s. s)"
  by (simp add: seg_hom_def)

lemma seg_hom_comp:
  assumes "seg_hom R1" "seg_hom R2"
  shows "seg_hom (\<lambda>s. R2 (R1 s))"
proof -
  have a: "R2 (R1 (u @ c # v)) = R2 (R1 u) @ c # R2 (R1 v)" if "\<not> plainc c" for u c v
    using that by (simp add: seg_hom_barrier [OF assms(1)] seg_hom_barrier [OF assms(2)])
  have b: "R2 (R1 []) = []"
    by (simp add: seg_hom_Nil [OF assms(1)] seg_hom_Nil [OF assms(2)])
  have c: "list_all plainc (R2 (R1 u)) \<and> (u \<noteq> [] \<longrightarrow> R2 (R1 u) \<noteq> [])"
    if "list_all plainc u" for u
    using that seg_hom_plain [OF assms(1)] seg_hom_plain [OF assms(2)]
      seg_hom_plain_ne [OF assms(1)] seg_hom_plain_ne [OF assms(2)] by blast
  have t: "trim (R2 (R1 u)) = R2 (R1 (trim u))" if "list_all plainc u" for u
    using that seg_hom_plain [OF assms(1) that]
    by (simp add: seg_hom_trim_free [OF assms(1)] seg_hom_trim_free [OF assms(2)])
  show ?thesis
    unfolding seg_hom_def using a b c t by blast
qed

lemma placeholder_inner: "inner_term (placeholder n)"
proof -
  have "plainc c \<and> \<not> is_ws c" if "placeholder_char c" for c
    using that
    by (auto simp: placeholder_char_def is_digit_def plainc_def is_sep_def is_punct_def is_ws_def)
  moreover have "placeholder n \<noteq> []"
    by (rule placeholder_not_Nil)
  moreover have "hd (placeholder n) = 95" "last (placeholder n) = 95"
    by (simp_all add: placeholder_def)
  ultimately show ?thesis
    using placeholder_chars [of n]
    by (auto simp: inner_term_def list_all_iff is_ws_def)
qed

lemma apply_placeholders_Nil: "apply_placeholders k [] s = s"
  by (simp add: apply_placeholders_def)

lemma apply_placeholders_Cons:
  "apply_placeholders k (j # js) s
     = apply_placeholders (Suc k) js (replace_plain j (placeholder k) s)"
  by (simp add: apply_placeholders_def replaceAll_placeholder)

lemma apply_placeholders_snoc:
  "apply_placeholders k (js @ [j]) s
     = replace_plain j (placeholder (k + length js)) (apply_placeholders k js s)"
  by (simp add: apply_placeholders_def enumerate_append_eq replaceAll_placeholder)

lemma seg_hom_apply:
  "list_all inner_term js \<Longrightarrow> seg_hom (apply_placeholders k js)"
proof (induction js arbitrary: k)
  case Nil
  then show ?case
    using seg_hom_id by (simp add: apply_placeholders_Nil [abs_def])
next
  case (Cons j js)
  have "seg_hom (replace_plain j (placeholder k))"
    using Cons.prems placeholder_inner by (simp add: seg_hom_replace)
  moreover have "seg_hom (apply_placeholders (Suc k) js)"
    using Cons by simp
  ultimately have "seg_hom (\<lambda>s. apply_placeholders (Suc k) js (replace_plain j (placeholder k) s))"
    by (rule seg_hom_comp)
  then show ?case
    by (simp add: apply_placeholders_Cons [abs_def])
qed

lemma protect_trace_step: "protect_trace text st \<Longrightarrow> protect_trace text (protect_entry st ke)"
proof (cases ke)
  case (Pair k e)
  assume tr: "protect_trace text st"
  show ?thesis
  proof (cases "js_includes (protectedText st) k")
    case True
    show ?thesis
      unfolding Pair protect_entry_hit [OF True]
      using tr by (simp add: protect_trace_def apply_placeholders_snoc)
  next
    case False
    then show ?thesis using tr Pair by (simp add: protect_entry_miss)
  qed
qed

lemma protect_trace_fold:
  "protect_trace text st \<Longrightarrow> protect_trace text (foldl protect_entry st es)"
  by (induction es arbitrary: st) (auto simp: protect_trace_step)

lemma protect_trace_final: "protect_trace text (protectProperNouns text g)"
proof -
  have "protect_trace text (protect_init text)"
    by (simp add: protect_trace_def protect_init_def apply_placeholders_Nil)
  then show ?thesis
    unfolding protectProperNouns_flat by (rule protect_trace_fold)
qed

lemma found_terms:
  "set (foundProperNouns (protectProperNouns text g)) \<subseteq> fst ` set (concat (map snd g))"
  using found_fold_subset [of "protect_init text" "concat (map snd g)"]
  by (simp add: protectProperNouns_flat protect_init_def)

lemma protect_aligned:
  assumes "inner_glossary g"
  shows "protectedText (protectProperNouns text g)
           = apply_placeholders 0 (foundProperNouns (protectProperNouns text g)) text"
    and "splitIntoSentences (protectedText (protectProperNouns text g))
           = map (apply_placeholders 0 (foundProperNouns (protectProperNouns text g)))
               (splitIntoSentences text)"
proof -
  show eq: "protectedText (protectProperNouns text g)
           = apply_placeholders 0 (foundProperNouns (protectProperNouns text g)) text"
    using protect_trace_final [of "text" g] by (simp add: protect_trace_def)
  have "list_all inner_term (foundProperNouns (protectProperNouns text g))"
    unfolding list_all_iff
  proof
    fix x
    assume "x \<in> set (foundProperNouns (protectProperNouns text g))"
    then obtain ke where "ke \<in> set (concat (map snd g))" "x = fst ke"
      using found_terms [of "text" g] by blast
    then show "inner_term x"
      using assms by (auto simp: inner_glossary_def list_all_iff)
  qed
  then have "seg_hom (apply_placeholders 0 (foundProperNouns (protectProperNouns text g)))"
    by (rule seg_hom_apply)
  then show "splitIntoSentences (protectedText (protectProperNouns text g))
           = map (apply_placeholders 0 (foundProperNouns (protectProperNouns text g)))
               (splitIntoSentences text)"
    unfolding eq by (rule seg_hom_sentences)
qed

section \<open>The sentences the splitter returns\<close>

lemma trim_edged: "trim x \<noteq> [] \<Longrightarrow> edged (trim x)"
proof -
  assume ne: "trim x \<noteq> []"
  obtain w1 w2 where "trim x = [] \<or> (\<not> is_ws (hd (trim x)) \<and> \<not> is_ws (last (trim x)))"
    by (rule trim_decompose)
  then show ?thesis using ne by (simp add: edged_def)
qed

lemma merge_step_edged:
  assumes "list_all edged acc" "edged x"
  shows "list_all edged (merge_step acc x)"
proof (cases "is_pure_punct x \<and> acc \<noteq> []")
  case True
  then have "list_all is_punct x" "x \<noteq> []"
    by (simp_all add: is_pure_punct_def)
  have l: "edged (last acc)"
    using assms(1) True by (simp add: list_all_iff)
  have "edged (last acc @ x)"
    using l assms(2) by (auto simp: edged_def)
  moreover have "list_all edged (butlast acc)"
    using assms(1) by (auto simp: list_all_iff dest: in_set_butlastD)
  ultimately show ?thesis
    using True by (simp add: merge_step_def)
next
  case False
  then show ?thesis
    using assms by (auto simp: merge_step_def)
qed

lemma merge_edged:
  "list_all edged acc \<Longrightarrow> list_all edged xs \<Longrightarrow> list_all edged (foldl merge_step acc xs)"
  by (induction xs arbitrary: acc) (auto simp: merge_step_edged)

lemma sentences_edged: "s \<in> set (splitIntoSentences t) \<Longrightarrow> edged s"
proof -
  assume a: "s \<in> set (splitIntoSentences t)"
  have "list_all edged (map trim (filter (\<lambda>s. 0 < length (trim s)) (split_sep t)))"
    by (auto simp: list_all_iff trim_edged)
  then have "list_all edged (foldl merge_step [] (map trim (filter (\<lambda>s. 0 < length (trim s)) (split_sep t))))"
    by (intro merge_edged) simp_all
  then show ?thesis
    using a by (auto simp: splitIntoSentences_def list_all_iff)
qed

lemma sentence_again:
  assumes "s \<in> set (splitIntoSentences t)" "list_all (\<lambda>c. \<not> is_sep c) s"
  shows "splitIntoSentences s = [s]"
proof -
  have "edged s" using assms(1) by (rule sentences_edged)
  then show ?thesis
    using seg_trailing [OF assms(2), of "[]"] by (simp add: edged_def)
qed

lemma split_sep_piece_kind:
  "x \<in> set (split_sep s) \<Longrightarrow> list_all (\<lambda>c. \<not> is_sep c) x \<or> list_all is_sep x"
  using split_sep_pieces [of x s] by (auto simp: plainc_def list_all_iff)

lemma shaped_piece:
  assumes "list_all (\<lambda>c. \<not> is_sep c) x \<or> list_all is_sep x" "edged x" "\<not> is_pure_punct x"
  shows "shaped x"
proof (cases "list_all is_sep x")
  case True
  then show ?thesis using assms by (simp add: shaped_def)
next
  case False
  then have "list_all (\<lambda>c. \<not> is_sep c) x" using assms(1) by blast
  then have "x = x @ [] \<and> list_all (\<lambda>c. \<not> is_sep c) x \<and> edged x \<and> list_all is_punct []"
    using assms(2) by simp
  then show ?thesis unfolding shaped_def by blast
qed

lemma shaped_append:
  assumes "shaped s" "is_pure_punct q"
  shows "shaped (s @ q)"
proof -
  have q: "list_all is_punct q" "q \<noteq> []"
    using assms(2) by (simp_all add: is_pure_punct_def)
  from assms(1) consider
    (a) x p where "s = x @ p" "list_all (\<lambda>c. \<not> is_sep c) x" "edged x" "list_all is_punct p"
    | (b) "list_all is_sep s" "edged s" "\<not> is_pure_punct s"
    unfolding shaped_def by blast
  then show ?thesis
  proof cases
    case a
    then have "s @ q = x @ (p @ q) \<and> list_all (\<lambda>c. \<not> is_sep c) x \<and> edged x \<and> list_all is_punct (p @ q)"
      using q by simp
    then show ?thesis unfolding shaped_def by blast
  next
    case b
    have "list_all is_sep (s @ q)"
      using b(1) q(1) punct_sep by (auto simp: list_all_iff)
    moreover have "edged (s @ q)"
      using b(2) q punct_not_ws by (auto simp: edged_def list_all_iff)
    moreover have "\<not> is_pure_punct (s @ q)"
      using b(3) b(2) by (auto simp: is_pure_punct_def edged_def)
    ultimately show ?thesis by (simp add: shaped_def)
  qed
qed

lemma merge_step_shaped:
  assumes "list_all shaped acc"
    and "list_all (\<lambda>c. \<not> is_sep c) x \<or> list_all is_sep x" and "edged x"
  shows "list_all shaped (merge_step acc x)"
proof (cases "is_pure_punct x")
  case True
  show ?thesis
  proof (cases "acc = []")
    case True
    then show ?thesis using \<open>is_pure_punct x\<close> by (simp add: merge_step_def)
  next
    case False
    have "shaped (last acc)"
      using assms(1) False by (simp add: list_all_iff)
    then have "shaped (last acc @ x)"
      using True by (rule shaped_append)
    moreover have "list_all shaped (butlast acc)"
      using assms(1) by (auto simp: list_all_iff dest: in_set_butlastD)
    ultimately show ?thesis
      using True False by (simp add: merge_step_def)
  qed
next
  case False
  then have "shaped x"
    using assms(2,3) by (intro shaped_piece)
  then show ?thesis
    using False assms(1) by (simp add: merge_step_def)
qed

lemma merge_shaped:
  "list_all shaped acc \<Longrightarrow>
   list_all (\<lambda>x. (list_all (\<lambda>c. \<not> is_sep c) x \<or> list_all is_sep x) \<and> edged x) xs \<Longrightarrow>
     list_all shaped (foldl merge_step acc xs)"
  by (induction xs arbitrary: acc) (auto simp: merge_step_shaped)

lemma trim_piece_kind:
  assumes "list_all (\<lambda>c. \<not> is_sep c) x \<or> list_all is_sep x"
  shows "list_all (\<lambda>c. \<not> is_sep c) (trim x) \<or> list_all is_sep (trim x)"
  using assms set_trim [of x] by (auto simp: list_all_iff)

lemma sentences_shaped: "s \<in> set (splitIntoSentences t) \<Longrightarrow> shaped s"
proof -
  assume a: "s \<in> set (splitIntoSentences t)"
  have "list_all (\<lambda>x. (list_all (\<lambda>c. \<not> is_sep c) x \<or> list_all is_sep x) \<and> edged x)
          (map trim (filter (\<lambda>s. 0 < length (trim s)) (split_sep t)))"
    using split_sep_piece_kind [of _ t] trim_piece_kind
    by (auto simp: list_all_iff trim_edged)
  then have "list_all shaped
      (foldl merge_step [] (map trim (filter (\<lambda>s. 0 < length (trim s)) (split_sep t))))"
    by (intro merge_shaped) simp_all
  then show ?thesis
    using a by (auto simp: splitIntoSentences_def list_all_iff)
qed

lemma seg_all_sep:
  assumes "list_all is_sep s" "edged s" "\<not> is_pure_punct s"
  shows "splitIntoSentences s = [s]"
proof -
  have ne: "s \<noteq> []" using assms(2) by (simp add: edged_def)
  have "split_sep ([] @ s @ []) = [] # s # split_sep []"
    using assms(1) ne by (intro split_sep_run) simp_all
  then have sp: "split_sep s = [[], s, []]"
    by (simp add: split_sep_Nil)
  have t: "trim s = s"
    using assms(2) by (simp add: edged_def trim_id)
  show ?thesis
    using ne assms(3) by (simp add: splitIntoSentences_def sp t trim_Nil merge_step_def)
qed

lemma shaped_again: "shaped s \<Longrightarrow> splitIntoSentences s = [s]"
proof -
  assume "shaped s"
  then consider
    (a) x p where "s = x @ p" "list_all (\<lambda>c. \<not> is_sep c) x" "edged x" "list_all is_punct p"
    | (b) "list_all is_sep s" "edged s" "\<not> is_pure_punct s"
    unfolding shaped_def by blast
  then show ?thesis
  proof cases
    case a
    then show ?thesis
      using seg_trailing [of x p] by (simp add: edged_def)
  next
    case b
    then show ?thesis by (rule seg_all_sep)
  qed
qed

lemma sentences_idempotent:
  "s \<in> set (splitIntoSentences t) \<Longrightarrow> splitIntoSentences s = [s]"
  using sentences_shaped shaped_again by blast

section \<open>Facts about the steps of the route\<close>

lemma protect_empty: "protectProperNouns text [] = protect_init text"
  by (simp add: protectProperNouns_def)


lemma restore_empty: "restoreProperNouns s [] = s"
  by (simp add: restoreProperNouns_def)


lemma is_string_iff: "is_string v = (\<exists>s. v = JStr s)"
  by (cases v) (simp_all add: is_string_def)

lemma restore_value_string:
  "is_string v \<Longrightarrow> \<exists>s. restoreProperNouns_value v pm = Some (JStr s)"
  by (auto simp: is_string_iff)

lemma is_string_joinable: "is_string v \<Longrightarrow> joinable v"
  by (auto simp: is_string_iff joinable_def)

lemma those_map_None: "(those (map f xs) = None) = (\<exists>x \<in> set xs. f x = None)"
  by (induction xs) (auto split: option.splits)

lemma join_item_None: "((if v = JNull then Some [] else to_string v) = None) = (\<not> joinable v)"
  by (cases v) (simp_all add: joinable_def)

lemma join_values_None: "(join_values sep vs = None) = (\<exists>v \<in> set vs. \<not> joinable v)"
  by (simp add: join_values_def those_map_None join_item_None)

lemma join_values_Some: "list_all joinable vs \<Longrightarrow> \<exists>c. join_values sep vs = Some c"
  using join_values_None [of sep vs] by (auto simp: list_all_iff)

lemma those_map_Some: "those (map (\<lambda>x. Some (f x)) xs) = Some (map f xs)"
  by (induction xs) auto

lemma join_values_strings: "join_values sep (map JStr xs) = Some (js_join sep xs)"
  by (simp add: join_values_def comp_def those_map_Some)

lemma build_sentences_None:
  "length ts < length os \<Longrightarrow> build_sentences os ts pm = None"
  by (induction os ts pm rule: build_sentences.induct) (auto split: option.splits)

lemma build_sentences_result:
  "build_sentences os ts pm = Some ss \<Longrightarrow>
     length os \<le> length ts \<and> length ss = length os \<and>
     (\<forall>i < length os. original (ss ! i) = os ! i \<and>
        restoreProperNouns_value (ts ! i) pm = Some (translated (ss ! i)))"
proof (induction os ts pm arbitrary: ss rule: build_sentences.induct)
  case (1 ts pm)
  then show ?case by simp
next
  case (2 orig os pm)
  then show ?case by simp
next
  case (3 orig os t ts pm)
  from "3.prems" obtain v r where v: "restoreProperNouns_value t pm = Some v"
    and r: "build_sentences os ts pm = Some r"
    and ss: "ss = \<lparr> original = orig, translated = v \<rparr> # r"
    by (auto split: option.splits)
  note ih = "3.IH" [OF v r]
  show ?case
  proof (intro conjI allI impI)
    show "length (orig # os) \<le> length (t # ts)" using ih by simp
    show "length ss = length (orig # os)" using ih ss by simp
    fix i assume i: "i < length (orig # os)"
    show "original (ss ! i) = (orig # os) ! i"
      using ih ss i by (cases i) auto
    show "restoreProperNouns_value ((t # ts) ! i) pm = Some (translated (ss ! i))"
      using ih ss i v by (cases i) auto
  qed
qed

lemma build_sentences_Some:
  "length os \<le> length ts \<Longrightarrow>
   \<forall>i < length os. restoreProperNouns_value (ts ! i) pm \<noteq> None \<Longrightarrow>
   \<exists>ss. build_sentences os ts pm = Some ss"
proof (induction os ts pm rule: build_sentences.induct)
  case (1 ts pm)
  then show ?case by simp
next
  case (2 orig os pm)
  then show ?case by simp
next
  case (3 orig os t ts pm)
  from "3.prems"(2) have "restoreProperNouns_value ((t # ts) ! 0) pm \<noteq> None"
    by blast
  then obtain v where v: "restoreProperNouns_value t pm = Some v"
    by auto
  have "\<forall>i < length os. restoreProperNouns_value (ts ! i) pm \<noteq> None"
  proof (intro allI impI)
    fix i assume "i < length os"
    then have "restoreProperNouns_value ((t # ts) ! Suc i) pm \<noteq> None"
      using "3.prems"(2) by (metis Suc_less_eq length_Cons)
    then show "restoreProperNouns_value (ts ! i) pm \<noteq> None" by simp
  qed
  with "3.IH" [OF v] "3.prems"(1) obtain r where "build_sentences os ts pm = Some r"
    by auto
  then show ?case
    using v by simp
qed

lemma calls_cached: "loadGlossary_calls files (Some g) = (replicate (length files) g, Some g)"
  by (induction files) auto

lemma POST_valid:
  "text \<noteq> [] \<Longrightarrow>
     POST \<lparr> api_key_set = True, body = Body (Some text) (Some visa_strict) \<rparr> file cache llm
       = (translate_pipeline (fst (loadGlossary file cache)) text llm,
          snd (loadGlossary file cache))"
  by (simp add: POST_def case_prod_unfold)

lemma sentenceTranslations_length [simp]:
  "length (sentenceTranslations llm ps) = length ps"
  by (simp add: sentenceTranslations_def)

lemma sentenceTranslations_nth:
  "i < length ps \<Longrightarrow>
     sentenceTranslations llm ps ! i = translateSentence (llm i (ps ! i)) (ps ! i)"
  by (simp add: sentenceTranslations_def nth_enumerate_eq)

lemma translate_pipeline_500:
  "(translate_pipeline g text llm = InternalServerError500) =
     (join_values [32]
        (sentenceTranslations llm (splitIntoSentences (protectedText (protectProperNouns text g))))
        = None \<or>
      build_sentences (splitIntoSentences text)
        (sentenceTranslations llm (splitIntoSentences (protectedText (protectProperNouns text g))))
        (placeholderMap (protectProperNouns text g)) = None)"
  by (simp add: translate_pipeline_def Let_def case_prod_unfold split: option.splits)

lemma translate_pipeline_Ok:
  "(translate_pipeline g text llm = Ok200 r) =
     (\<exists>c ss.
        join_values [32]
          (sentenceTranslations llm (splitIntoSentences (protectedText (protectProperNouns text g))))
          = Some c \<and>
        build_sentences (splitIntoSentences text)
          (sentenceTranslations llm (splitIntoSentences (protectedText (protectProperNouns text g))))
          (placeholderMap (protectProperNouns text g)) = Some ss \<and>
        r = \<lparr> outputText = restoreProperNouns c (placeholderMap (protectProperNouns text g)),
              riskLevel = fst (classify (detectUnknownProperNouns text g)),
              warnings = snd (classify (detectUnknownProperNouns text g)),
              appliedGlossary = foundProperNouns (protectProperNouns text g),
              sentences = ss \<rparr>)"
  by (auto simp: translate_pipeline_def Let_def case_prod_unfold split: option.splits)

lemma translate_pipeline_short:
  assumes "length (splitIntoSentences (protectedText (protectProperNouns text g)))
             < length (splitIntoSentences text)"
  shows "translate_pipeline g text llm = InternalServerError500"
  unfolding translate_pipeline_500 using assms by (simp add: build_sentences_None)

lemma translate_pipeline_sentences:
  assumes "translate_pipeline g text llm = Ok200 r"
  shows "length (splitIntoSentences text)
           \<le> length (splitIntoSentences (protectedText (protectProperNouns text g)))"
    and "length (sentences r) = length (splitIntoSentences text)"
    and "i < length (sentences r) \<Longrightarrow>
           original (sentences r ! i) = splitIntoSentences text ! i \<and>
           restoreProperNouns_value
             (translateSentence
                (llm i (splitIntoSentences (protectedText (protectProperNouns text g)) ! i))
                (splitIntoSentences (protectedText (protectProperNouns text g)) ! i))
             (placeholderMap (protectProperNouns text g))
             = Some (translated (sentences r ! i))"
proof -
  from assms obtain ss where
    ss: "build_sentences (splitIntoSentences text)
          (sentenceTranslations llm (splitIntoSentences (protectedText (protectProperNouns text g))))
          (placeholderMap (protectProperNouns text g)) = Some ss"
    and r: "sentences r = ss"
    unfolding translate_pipeline_Ok by auto
  note res = build_sentences_result [OF ss]
  show le: "length (splitIntoSentences text)
           \<le> length (splitIntoSentences (protectedText (protectProperNouns text g)))"
    using res by simp
  show len: "length (sentences r) = length (splitIntoSentences text)"
    using res r by simp
  show "original (sentences r ! i) = splitIntoSentences text ! i \<and>
           restoreProperNouns_value
             (translateSentence
                (llm i (splitIntoSentences (protectedText (protectProperNouns text g)) ! i))
                (splitIntoSentences (protectedText (protectProperNouns text g)) ! i))
             (placeholderMap (protectProperNouns text g))
             = Some (translated (sentences r ! i))"
    if "i < length (sentences r)"
  proof -
    have i: "i < length (splitIntoSentences text)"
      "i < length (splitIntoSentences (protectedText (protectProperNouns text g)))"
      using that len le by simp_all
    from res i(1) have "original (ss ! i) = splitIntoSentences text ! i \<and>
        restoreProperNouns_value
          (sentenceTranslations llm
             (splitIntoSentences (protectedText (protectProperNouns text g))) ! i)
          (placeholderMap (protectProperNouns text g)) = Some (translated (ss ! i))"
      by blast
    then show ?thesis
      unfolding r sentenceTranslations_nth [OF i(2)] .
  qed
qed


lemma translate_pipeline_strings:
  assumes "length (splitIntoSentences text)
             \<le> length (splitIntoSentences (protectedText (protectProperNouns text g)))"
    and "list_all is_string
           (sentenceTranslations llm (splitIntoSentences (protectedText (protectProperNouns text g))))"
  shows "\<exists>r. translate_pipeline g text llm = Ok200 r"
proof -
  let ?ts = "sentenceTranslations llm (splitIntoSentences (protectedText (protectProperNouns text g)))"
  have "list_all joinable ?ts"
    using assms(2) by (auto simp: list_all_iff is_string_joinable)
  then obtain c where c: "join_values [32] ?ts = Some c"
    using join_values_Some by blast
  have "\<forall>i < length (splitIntoSentences text).
          restoreProperNouns_value (?ts ! i) (placeholderMap (protectProperNouns text g)) \<noteq> None"
  proof (intro allI impI)
    fix i assume "i < length (splitIntoSentences text)"
    then have "?ts ! i \<in> set ?ts"
      using assms(1) by simp
    then have "is_string (?ts ! i)"
      using assms(2) by (simp add: list_all_iff)
    then show "restoreProperNouns_value (?ts ! i) (placeholderMap (protectProperNouns text g)) \<noteq> None"
      using restore_value_string by fastforce
  qed
  then obtain ss where "build_sentences (splitIntoSentences text) ?ts
      (placeholderMap (protectProperNouns text g)) = Some ss"
    using build_sentences_Some assms(1) by (metis sentenceTranslations_length)
  with c show ?thesis
    unfolding translate_pipeline_Ok by blast
qed




text \<open>
  Answers that give the sentence back: \<^verbatim>\<open>{}\<close>, \<^verbatim>\<open>{"translated":""}\<close>,
  \<^verbatim>\<open>{"translated":null}\<close>, \<^verbatim>\<open>{"translated":0}\<close>, \<^verbatim>\<open>null\<close> and \<^verbatim>\<open>[]\<close>.
\<close>

lemma translateSentence_fallbacks:
  "translateSentence (Content [123, 125] (Json (JObj []))) [66] = JStr [66]"
  "translateSentence
     (Content [123, 34, 116, 114, 97, 110, 115, 108, 97, 116, 101, 100, 34, 58, 34, 34, 125]
        (Json (JObj [(key_translated, JStr [])]))) [66] = JStr [66]"
  "translateSentence
     (Content [123, 34, 116, 114, 97, 110, 115, 108, 97, 116, 101, 100, 34, 58, 110, 117, 108, 108,
               125]
        (Json (JObj [(key_translated, JNull)]))) [66] = JStr [66]"
  "translateSentence
     (Content [123, 34, 116, 114, 97, 110, 115, 108, 97, 116, 101, 100, 34, 58, 48, 125]
        (Json (JObj [(key_translated, JNum [48])]))) [66] = JStr [66]"
  "translateSentence (Content [110, 117, 108, 108] (Json JNull)) [66] = JStr [66]"
  "translateSentence (Content [91, 93] (Json (JArr []))) [66] = JStr [66]"
  by (simp_all add: get_prop_def)

text \<open>
  Values that are not strings in the join of step 5: \<^verbatim>\<open>42\<close>, \<^verbatim>\<open>[1,null,[true]]\<close> and
  \<^verbatim>\<open>{"a":1}\<close> are converted; \<^verbatim>\<open>{"toString":1}\<close> is not.
\<close>

lemma join_values_examples:
  "join_values [32] [JNum [52, 50], JStr [72, 105]] = Some [52, 50, 32, 72, 105]"
  "join_values [32] [JArr [JNum [49], JNull, JArr [JBool True]]]
     = Some [49, 44, 44, 116, 114, 117, 101]"
  "join_values [32] [JObj [([97], JNum [49])]] = Some object_Object"
  "join_values [32] [JStr [72, 105], JObj [(key_toString, JNum [49])]] = None"
  by (simp_all add: join_values_def key_toString_def)

section \<open>Restoring a text of pieces\<close>

lemma no_underscore_no_token: "95 \<notin> set s \<Longrightarrow> \<not> has_placeholder_token s"
proof (induction s)
  case Nil
  then show ?case by simp
next
  case (Cons c s)
  then have "\<not> placeholder_at (c # s)"
    by (cases "c # s" rule: placeholder_at.cases) auto
  then show ?case using Cons by simp
qed

lemma render_append: "render (ps @ qs) = render ps @ render qs"
  by (induction ps rule: render.induct) auto

lemma render_Ch: "render (map Ch e) = e"
  by (induction e) auto

lemma digits_terminated:
  "list_all is_digit dn \<Longrightarrow> list_all is_digit dm \<Longrightarrow>
     prefix (dn @ 95 # r) (dm @ 95 # r') \<Longrightarrow> dn = dm"
proof (induction dn arbitrary: dm)
  case Nil
  then show ?case by (cases dm) (auto simp: is_digit_def)
next
  case (Cons a dn)
  then show ?case by (cases dm) (auto simp: is_digit_def)
qed

lemma placeholder_prefix_same:
  assumes "prefix (placeholder n) (placeholder m @ x)"
  shows "n = m"
proof -
  have "prefix (decimal n @ 95 # [95]) (decimal m @ 95 # 95 # x)"
    using assms by (simp add: placeholder_def)
  then have "decimal n = decimal m"
    using digits_terminated [OF decimal_digits decimal_digits] by blast
  then show ?thesis by (rule decimal_inj)
qed

lemma hd_placeholder: "hd (placeholder n) = 95"
  by (simp add: placeholder_def)

lemma decimal_hd: "\<exists>d ds. decimal n = d # ds \<and> is_digit d"
  using decimal_not_Nil [of n] decimal_digits [of n] by (cases "decimal n") auto

lemma no_tail_match:
  assumes "list_all (plain_piece lo hi) ps" "is_digit d"
  shows "\<not> prefix (80 # 78 # 95 # d # r) (render ps)"
proof (cases ps)
  case Nil
  then show ?thesis by simp
next
  case (Cons p1 ps1)
  show ?thesis
  proof (cases p1)
    case (Ph m)
    then show ?thesis using Cons by (simp add: placeholder_def)
  next
    case (Ch c1)
    show ?thesis
    proof (cases ps1)
      case Nil
      then show ?thesis using Cons Ch by simp
    next
      case ps1: (Cons p2 ps2)
      show ?thesis
      proof (cases p2)
        case (Ph m)
        then show ?thesis using Cons Ch ps1 by (simp add: placeholder_def)
      next
        case c2: (Ch c2)
        show ?thesis
        proof (cases ps2)
          case Nil
          then show ?thesis using Cons Ch ps1 c2 by simp
        next
          case ps2: (Cons p3 ps3)
          show ?thesis
          proof (cases p3)
            case (Ph m)
            then show ?thesis
              using Cons Ch ps1 c2 ps2 assms(2) by (auto simp: placeholder_def is_digit_def)
          next
            case (Ch c3)
            then show ?thesis
              using Cons \<open>p1 = Ch c1\<close> ps1 c2 ps2 assms(1) by auto
          qed
        qed
      qed
    qed
  qed
qed

lemma no_last_match:
  assumes "list_all (plain_piece lo hi) ps"
  shows "\<not> prefix (95 # 80 # r) (render ps)"
proof (cases ps)
  case Nil
  then show ?thesis by simp
next
  case (Cons p1 ps1)
  then show ?thesis
    using assms by (cases p1) (auto simp: placeholder_def)
qed

lemma rp_skip_placeholder:
  assumes wf: "list_all (plain_piece lo hi) ps" and nm: "m \<noteq> n"
  shows "replace_plain (placeholder n) e (placeholder m @ render ps)
           = placeholder m @ replace_plain (placeholder n) e (render ps)"
proof -
  let ?P = "placeholder n"
  let ?X = "render ps"
  obtain d ds where dn: "decimal n = d # ds" "is_digit d"
    using decimal_hd by blast
  have P: "?P = 95 # 95 # 80 # 78 # 95 # d # ds @ [95, 95]"
    by (simp add: placeholder_def dn)
  have s0: "\<not> prefix ?P (placeholder m @ ?X)"
    using placeholder_prefix_same nm by blast
  have dm: "list_all (\<lambda>c. c \<noteq> hd ?P) (decimal m)"
    using decimal_digits [of m] by (auto simp: hd_placeholder list_all_iff is_digit_def)
  obtain b bs where bm: "decimal m = b # bs" "is_digit b"
    using decimal_hd by blast
  have s4: "\<not> prefix ?P (95 # decimal m @ 95 # 95 # ?X)"
    using bm by (auto simp: P is_digit_def)
  have s5: "\<not> prefix ?P (95 # 95 # ?X)"
    using no_tail_match [OF wf dn(2)] by (simp add: P)
  have s6: "\<not> prefix ?P (95 # ?X)"
    using no_last_match [OF wf] by (simp add: P)
  have run: "replace_plain ?P e (decimal m @ 95 # 95 # ?X)
               = decimal m @ replace_plain ?P e (95 # 95 # ?X)"
    using rp_skip_run [OF placeholder_not_Nil dm] .
  have "replace_plain ?P e (placeholder m @ ?X)
          = 95 # replace_plain ?P e (95 # 80 # 78 # 95 # decimal m @ 95 # 95 # ?X)"
    using s0 rp_skip [of ?P 95 "95 # 80 # 78 # 95 # decimal m @ 95 # 95 # ?X" e]
    by (simp add: placeholder_def)
  also have "replace_plain ?P e (95 # 80 # 78 # 95 # decimal m @ 95 # 95 # ?X)
          = 95 # replace_plain ?P e (80 # 78 # 95 # decimal m @ 95 # 95 # ?X)"
    by (rule rp_skip) (simp add: P)
  also have "replace_plain ?P e (80 # 78 # 95 # decimal m @ 95 # 95 # ?X)
          = 80 # replace_plain ?P e (78 # 95 # decimal m @ 95 # 95 # ?X)"
    by (rule rp_skip) (simp add: P)
  also have "replace_plain ?P e (78 # 95 # decimal m @ 95 # 95 # ?X)
          = 78 # replace_plain ?P e (95 # decimal m @ 95 # 95 # ?X)"
    by (rule rp_skip) (simp add: P)
  also have "replace_plain ?P e (95 # decimal m @ 95 # 95 # ?X)
          = 95 # replace_plain ?P e (decimal m @ 95 # 95 # ?X)"
    using s4 by (rule rp_skip)
  also note run
  also have "replace_plain ?P e (95 # 95 # ?X) = 95 # replace_plain ?P e (95 # ?X)"
    using s5 by (rule rp_skip)
  also have "replace_plain ?P e (95 # ?X) = 95 # replace_plain ?P e ?X"
    using s6 by (rule rp_skip)
  finally show ?thesis
    by (simp add: placeholder_def)
qed

lemma rp_render:
  assumes wf: "list_all (plain_piece lo hi) ps"
  shows "replace_plain (placeholder n) e (render ps) = render (fill_all n e ps)"
  using wf
proof (induction ps)
  case Nil
  then show ?case
    by (simp add: fill_all_def rp_Nil placeholder_not_Nil)
next
  case (Cons p ps)
  then have wf': "list_all (plain_piece lo hi) ps" and IH:
    "replace_plain (placeholder n) e (render ps) = render (fill_all n e ps)"
    by simp_all
  show ?case
  proof (cases p)
    case (Ch c)
    then have "c \<noteq> 95" using Cons.prems by simp
    then have "\<not> prefix (placeholder n) (c # render ps)"
      by (simp add: placeholder_def)
    then show ?thesis
      using Ch IH by (simp add: rp_skip fill_all_def)
  next
    case (Ph m)
    show ?thesis
    proof (cases "m = n")
      case True
      then show ?thesis
        using Ph IH rp_match [OF placeholder_not_Nil, of n e "render ps"]
        by (simp add: fill_all_def render_append render_Ch)
    next
      case False
      then show ?thesis
        using Ph IH rp_skip_placeholder [OF wf' False, of e]
        by (simp add: fill_all_def)
    qed
  qed
qed

lemma fill_all_above:
  assumes "list_all (plain_piece lo hi) ps" "95 \<notin> set e"
  shows "list_all (plain_piece (Suc lo) hi) (fill_all lo e ps)"
  using assms(1)
proof (induction ps)
  case Nil
  then show ?case by (simp add: fill_all_def)
next
  case (Cons p ps)
  then show ?case
    using assms(2) by (cases p) (auto simp: fill_all_def list_all_iff)
qed

lemma render_no_holder:
  "list_all (plain_piece hi hi) ps \<Longrightarrow> 95 \<notin> set (render ps)"
proof (induction ps)
  case Nil
  then show ?case by simp
next
  case (Cons p ps)
  then show ?case by (cases p) auto
qed

lemma restore_render:
  "list_all (plain_piece lo (lo + length es)) ps \<Longrightarrow>
   list_all (\<lambda>e. 36 \<notin> set e \<and> 95 \<notin> set e) es \<Longrightarrow>
     95 \<notin> set (restoreProperNouns (render ps) (zip (map placeholder [lo..<lo + length es]) es))"
proof (induction es arbitrary: lo ps)
  case Nil
  then show ?case
    using render_no_holder [of lo ps] by (simp add: restoreProperNouns_def)
next
  case (Cons e es)
  have e: "36 \<notin> set e" "95 \<notin> set e" and es: "list_all (\<lambda>e. 36 \<notin> set e \<and> 95 \<notin> set e) es"
    using Cons.prems(2) by simp_all
  have up: "[lo..<lo + length (e # es)] = lo # [Suc lo..<Suc lo + length es]"
    by (simp add: upt_rec)
  have step: "replaceAll (render ps) (placeholder lo) e = render (fill_all lo e ps)"
    using rp_render [OF Cons.prems(1)] by (simp add: replaceAll_plain e)
  have wf: "list_all (plain_piece (Suc lo) (Suc lo + length es)) (fill_all lo e ps)"
    using fill_all_above [OF Cons.prems(1) e(2)] by simp
  have "95 \<notin> set (restoreProperNouns (render (fill_all lo e ps))
           (zip (map placeholder [Suc lo..<Suc lo + length es]) es))"
    using Cons.IH [OF wf es] .
  then show ?case
    unfolding up by (simp add: restoreProperNouns_def step)
qed

lemma map_set_values: "snd ` set (map_set k v m) \<subseteq> insert v (snd ` set m)"
proof (induction m)
  case Nil
  then show ?case by simp
next
  case (Cons p m)
  then show ?case
    by (cases p) (auto split: if_splits)
qed

lemma protect_values_step:
  "snd ` set (placeholderMap (protect_entry st ke))
     \<subseteq> insert (en (snd ke)) (snd ` set (placeholderMap st))"
  using map_set_values by (cases ke) (auto simp: protect_entry_def)

lemma protect_values_fold:
  "snd ` set (placeholderMap (foldl protect_entry st es))
     \<subseteq> (\<lambda>ke. en (snd ke)) ` set es \<union> snd ` set (placeholderMap st)"
proof (induction es arbitrary: st)
  case Nil
  then show ?case by simp
next
  case (Cons a es)
  show ?case
    using Cons [of "protect_entry st a"] protect_values_step [of st a] by auto
qed

lemma protect_values:
  "snd ` set (placeholderMap (protectProperNouns text g))
     \<subseteq> (\<lambda>ke. en (snd ke)) ` set (concat (map snd g))"
  using protect_values_fold [of "protect_init text" "concat (map snd g)"]
  by (simp add: protectProperNouns_flat protect_init_def)

lemma protect_map_shape:
  "placeholderMap (protectProperNouns text g)
     = zip (map placeholder [0..<0 + length (map snd (placeholderMap (protectProperNouns text g)))])
         (map snd (placeholderMap (protectProperNouns text g)))"
proof -
  have wf: "protect_wf (protectProperNouns text g)"
    unfolding protectProperNouns_flat using protect_wf_init by (rule protect_wf_fold)
  then have k: "map fst (placeholderMap (protectProperNouns text g))
      = map placeholder [0..<placeholderIndex (protectProperNouns text g)]"
    by (simp add: protect_wf_def)
  then have "length (placeholderMap (protectProperNouns text g))
      = placeholderIndex (protectProperNouns text g)"
    by (metis length_map length_upt diff_zero)
  then show ?thesis
    using k zip_map_fst_snd [of "placeholderMap (protectProperNouns text g)"] by simp
qed

section \<open>The risk level (claim C4)\<close>

text \<open>
  Claim C4. With no unverified noun the risk level is GREEN and there is no warning. With
  at least one, the level is RED when some noun has a length from 2 to 4 code units,
  however many longer nouns there are, and YELLOW otherwise; in both cases there is
  exactly one warning, and it contains the comma-separated list of all the nouns, hence
  each of them.
\<close>

theorem classify_policy:
  "classify [] = (GREEN, []) \<and>
   (unverified \<noteq> [] \<longrightarrow>
      (fst (classify unverified) =
         (if \<exists>noun \<in> set unverified. 2 \<le> length noun \<and> length noun \<le> 4 then RED else YELLOW)) \<and>
      (\<exists>w. snd (classify unverified) = [w] \<and>
           js_includes w (js_join [44, 32] unverified) \<and>
           (\<forall>noun \<in> set unverified. js_includes w noun)))"
proof -
  have a: "classify [] = (GREEN, [])"
    by (simp add: classify_def)
  have b: "fst (classify unverified) =
         (if \<exists>noun \<in> set unverified. 2 \<le> length noun \<and> length noun \<le> 4 then RED else YELLOW)"
    if "unverified \<noteq> []"
    using that by (simp add: classify_def list_ex_iff)
  have c: "\<exists>w. snd (classify unverified) = [w] \<and>
           js_includes w (js_join [44, 32] unverified) \<and>
           (\<forall>noun \<in> set unverified. js_includes w noun)"
    if ne: "unverified \<noteq> []"
  proof -
    obtain a b where w: "snd (classify unverified) = [a @ js_join [44, 32] unverified @ b]"
      using ne by (cases "list_ex (\<lambda>noun. 2 \<le> length noun \<and> length noun \<le> 4) unverified")
        (simp_all add: classify_def)
    have "sublist (js_join [44, 32] unverified) (a @ js_join [44, 32] unverified @ b)"
      by simp
    moreover have "sublist noun (a @ js_join [44, 32] unverified @ b)"
      if "noun \<in> set unverified" for noun
      using that by (intro sublist_middle sublist_js_join)
    ultimately show ?thesis
      using w by (auto simp: js_includes_sublist)
  qed
  show ?thesis using a b c by blast
qed

text \<open>
  The two examples of the specification, a name of two code units and an organisation of
  eight, alone and together.
\<close>

theorem classify_policy_witness:
  "[[30000, 20013], [22269, 38555, 20132, 27969, 12475, 12531, 12479, 12540]] \<noteq> [] \<and>
   fst (classify [[30000, 20013], [22269, 38555, 20132, 27969, 12475, 12531, 12479, 12540]]) = RED \<and>
   fst (classify [[30000, 20013]]) = RED \<and>
   fst (classify [[22269, 38555, 20132, 27969, 12475, 12531, 12479, 12540]]) = YELLOW \<and>
   js_includes
     (hd (snd (classify [[30000, 20013], [22269, 38555, 20132, 27969, 12475, 12531, 12479, 12540]])))
     [22269, 38555, 20132, 27969, 12475, 12531, 12479, 12540]"
  using classify_policy [of "[[30000, 20013], [22269, 38555, 20132, 27969, 12475, 12531, 12479, 12540]]"]
    classify_policy [of "[[30000, 20013]]"]
    classify_policy [of "[[22269, 38555, 20132, 27969, 12475, 12531, 12479, 12540]]"]
  by auto

section \<open>A single sentence (claim C6)\<close>

text \<open>
  Claim C6, as stated, fails: a text without any mark and without line feed is trimmed
  by the splitter, so a text with a leading space does not come back as it is (and the
  empty text gives no sentence at all).
\<close>

theorem splitIntoSentences_single_counterexample:
  "\<not> (\<forall>s. list_all (\<lambda>c. \<not> is_sep c) s \<longrightarrow> splitIntoSentences s = [s])"
proof
  assume "\<forall>s. list_all (\<lambda>c. \<not> is_sep c) s \<longrightarrow> splitIntoSentences s = [s]"
  then have "list_all (\<lambda>c. \<not> is_sep c) [32, 97] \<longrightarrow> splitIntoSentences [32, 97] = [[32, 97]]"
    by (rule spec)
  moreover have "list_all (\<lambda>c. \<not> is_sep c) [32, 97]"
    by (simp add: is_sep_def is_punct_def)
  moreover have "splitIntoSentences [32, 97] = [[97]]"
    by (simp add: seg_eval)
  ultimately show False
    by simp
qed

text \<open>
  Claim C6, amended. The splitter is idempotent on the sentences it returns: every
  sentence \<open>s\<close> that it returns for some text \<open>t\<close> comes back as the only sentence of \<open>s\<close>.
  For any text \<open>s\<close> without any mark and without line feed, the splitter returns the
  trimmed text as the only sentence, or no sentence when nothing is left after trimming.
  So it returns \<open>[s]\<close> when \<open>s\<close> is not empty and neither starts nor ends with white
  space; and such a sentence followed by marks of its own (no line feed) comes back whole
  as well.
\<close>

theorem splitIntoSentences_single:
  "(s \<in> set (splitIntoSentences t) \<longrightarrow> splitIntoSentences s = [s]) \<and>
   (list_all (\<lambda>c. \<not> is_sep c) s \<longrightarrow>
      splitIntoSentences s = (if trim s = [] then [] else [trim s]) \<and>
      (s \<noteq> [] \<and> \<not> is_ws (hd s) \<and> \<not> is_ws (last s) \<longrightarrow>
         splitIntoSentences s = [s] \<and>
         (list_all is_punct p \<longrightarrow> splitIntoSentences (s @ p) = [s @ p])))"
  using sentences_idempotent [of s t] seg_no_sep [of s] seg_trailing [of s p]
    seg_trailing [of s "[]"]
  by simp

theorem splitIntoSentences_single_witness:
  "list_all (\<lambda>c. \<not> is_sep c) [26469, 26085, 12375, 12383] \<and>
   \<not> is_ws (hd [26469, 26085, 12375, 12383]) \<and> \<not> is_ws (last [26469, 26085, 12375, 12383]) \<and>
   list_all is_punct [12290] \<and>
   splitIntoSentences [26469, 26085, 12375, 12383] = [[26469, 26085, 12375, 12383]] \<and>
   splitIntoSentences [26469, 26085, 12375, 12383, 12290] = [[26469, 26085, 12375, 12383, 12290]] \<and>
   [97, 12290] \<in> set (splitIntoSentences [97, 12290, 98]) \<and>
   splitIntoSentences [97, 12290] = [[97, 12290]]"
proof -
  have h: "list_all (\<lambda>c. \<not> is_sep c) [26469, 26085, 12375, 12383]"
    "\<not> is_ws (hd [26469, 26085, 12375, 12383])" "\<not> is_ws (last [26469, 26085, 12375, 12383])"
    "list_all is_punct [12290]"
    by (simp_all add: is_sep_def is_punct_def is_ws_def)
  have ne: "[26469, 26085, 12375, 12383] \<noteq> ([] :: nat list)"
    by simp
  have m: "[97, 12290] \<in> set (splitIntoSentences [97, 12290, 98])"
    by (simp add: seg_eval)
  have i: "splitIntoSentences [97, 12290] = [[97, 12290]]"
    using splitIntoSentences_single [of "[97, 12290]" "[97, 12290, 98]" "[]"] m by blast
  from splitIntoSentences_single [of "[26469, 26085, 12375, 12383]" "[]" "[12290]"] h ne
  have "splitIntoSentences [26469, 26085, 12375, 12383] = [[26469, 26085, 12375, 12383]] \<and>
    splitIntoSentences ([26469, 26085, 12375, 12383] @ [12290])
      = [[26469, 26085, 12375, 12383] @ [12290]]"
    by blast
  then show ?thesis
    using h m i by simp
qed

section \<open>Protected terms (claim C2)\<close>

text \<open>
  Claim C2, as stated, fails in both halves. A term that an earlier entry has already
  taken out of the text is not recorded: with the entries of the family name and of the
  full name in this order, the full name occurs in the text but is never found. And a
  term made of placeholder characters comes back with its own placeholder: the term
  \<^verbatim>\<open>_\<close> is still in the protected text.
\<close>

theorem protect_terms_counterexample:
  "js_includes [30000, 20013, 22826, 37070] [30000, 20013, 22826, 37070] \<and>
   [30000, 20013, 22826, 37070] \<notin> set (foundProperNouns (protectProperNouns
      [30000, 20013, 22826, 37070]
      [([97], [([30000, 20013], \<lparr>en = [84, 97, 110, 97, 107, 97], confidence = []\<rparr>),
               ([30000, 20013, 22826, 37070],
                \<lparr>en = [84, 97, 114, 111, 32, 84, 97, 110, 97, 107, 97], confidence = []\<rparr>)])])) \<and>
   js_includes [95] [95] \<and>
   js_includes
     (protectedText (protectProperNouns [95] [([97], [([95], \<lparr>en = [85], confidence = []\<rparr>)])]))
     [95]"
  by (simp add: protect_eval)

text \<open>
  Claim C2, amended. Let the entries of the glossary, in the order the loops visit them,
  be \<open>pre\<close>, then the entry of the term \<open>j\<close>, then \<open>post\<close>. If \<open>j\<close> occurs in the text as it
  is when the loops reach the entry (after the replacements for \<open>pre\<close>), then \<open>j\<close> is among
  the found proper nouns; this is so in particular when \<open>j\<close> occurs in the input and no
  term of \<open>pre\<close> does. If \<open>j\<close> is not empty, has no underscore and is not made of placeholder
  characters only, then \<open>j\<close> does not occur in the protected text.
\<close>

theorem protect_terms:
  "concat (map snd g) = pre @ (j, e) # post \<longrightarrow>
     (js_includes (protectedText (foldl protect_entry (protect_init text) pre)) j \<longrightarrow>
        j \<in> set (foundProperNouns (protectProperNouns text g))) \<and>
     (js_includes text j \<and> list_all (\<lambda>ke. \<not> js_includes text (fst ke)) pre \<longrightarrow>
        j \<in> set (foundProperNouns (protectProperNouns text g))) \<and>
     (placeholder_safe j \<longrightarrow> \<not> js_includes (protectedText (protectProperNouns text g)) j)"
proof (intro impI conjI)
  assume sp: "concat (map snd g) = pre @ (j, e) # post"
  show "j \<in> set (foundProperNouns (protectProperNouns text g))"
    if "js_includes (protectedText (foldl protect_entry (protect_init text) pre)) j"
    using protect_recorded [OF sp that] .
  show "j \<in> set (foundProperNouns (protectProperNouns text g))"
    if h: "js_includes text j \<and> list_all (\<lambda>ke. \<not> js_includes text (fst ke)) pre"
  proof -
    have "foldl protect_entry (protect_init text) pre = protect_init text"
      using h by (intro fold_no_hit) (simp add: protect_init_def)
    then have "js_includes (protectedText (foldl protect_entry (protect_init text) pre)) j"
      using h by (simp add: protect_init_def)
    then show ?thesis
      using protect_recorded [OF sp] by blast
  qed
  show "\<not> js_includes (protectedText (protectProperNouns text g)) j" if "placeholder_safe j"
    using protect_absent [OF that, of e g "text"] sp by simp
qed

theorem protect_terms_witness:
  "js_includes [30000, 20013, 22826, 37070, 12399, 26469, 26085, 12375, 12383, 12290]
     [30000, 20013, 22826, 37070] \<and>
   placeholder_safe [30000, 20013, 22826, 37070] \<and>
   [30000, 20013, 22826, 37070] \<in> set (foundProperNouns (protectProperNouns
      [30000, 20013, 22826, 37070, 12399, 26469, 26085, 12375, 12383, 12290]
      [([97], [([30000, 20013, 22826, 37070],
                \<lparr>en = [84, 97, 114, 111, 32, 84, 97, 110, 97, 107, 97], confidence = []\<rparr>)])])) \<and>
   \<not> js_includes (protectedText (protectProperNouns
      [30000, 20013, 22826, 37070, 12399, 26469, 26085, 12375, 12383, 12290]
      [([97], [([30000, 20013, 22826, 37070],
                \<lparr>en = [84, 97, 114, 111, 32, 84, 97, 110, 97, 107, 97], confidence = []\<rparr>)])]))
     [30000, 20013, 22826, 37070]"
proof -
  have a: "js_includes [30000, 20013, 22826, 37070, 12399, 26469, 26085, 12375, 12383, 12290]
     [30000, 20013, 22826, 37070]"
    by simp
  have b: "placeholder_safe [30000, 20013, 22826, 37070]"
    by (simp add: placeholder_safe_def placeholder_char_def is_digit_def)
  have c: "concat (map snd [([97 :: nat], [([30000, 20013, 22826, 37070 :: nat],
                \<lparr>en = [84, 97, 114, 111, 32, 84, 97, 110, 97, 107, 97], confidence = []\<rparr>)])])
        = [] @ ([30000, 20013, 22826, 37070],
                \<lparr>en = [84, 97, 114, 111, 32, 84, 97, 110, 97, 107, 97], confidence = []\<rparr>) # []"
    by simp
  have d: "js_includes (protectedText (foldl protect_entry (protect_init
        [30000, 20013, 22826, 37070, 12399, 26469, 26085, 12375, 12383, 12290]) []))
     [30000, 20013, 22826, 37070]"
    by (simp add: protect_init_def)
  show ?thesis
    using a b protect_terms [of "[([97], [([30000, 20013, 22826, 37070],
                \<lparr>en = [84, 97, 114, 111, 32, 84, 97, 110, 97, 107, 97], confidence = []\<rparr>)])]"
        "[]" "[30000, 20013, 22826, 37070]"
        "\<lparr>en = [84, 97, 114, 111, 32, 84, 97, 110, 97, 107, 97], confidence = []\<rparr>" "[]"
        "[30000, 20013, 22826, 37070, 12399, 26469, 26085, 12375, 12383, 12290]"] c d
    by blast
qed

section \<open>A term in two categories (claim C8)\<close>

text \<open>
  Claim C8, as stated, fails for a term made of placeholder characters. The term
  \<^verbatim>\<open>0\<close> is in two categories; it is found in the text, and found again inside the
  placeholder that replaced it; the map gets both renderings, and restoring the
  protected text brings out the second one, not the first.
\<close>

lemma protect_digit_twice: "protectProperNouns [48]
      [([97], [([48], \<lparr>en = [65], confidence = []\<rparr>)]),
       ([98], [([48], \<lparr>en = [66], confidence = []\<rparr>)])]
  = \<lparr>protectedText = [95, 95, 80, 78, 95, 95, 95, 80, 78, 95, 49, 95, 95, 95, 95],
    placeholderMap = [([95, 95, 80, 78, 95, 48, 95, 95], [65]), ([95, 95, 80, 78, 95, 49, 95, 95], [66])],
    foundProperNouns = [[48], [48]], placeholderIndex = 2\<rparr>"
  by (simp add: protect_eval)

theorem first_match_counterexample:
  "map_of (concat (map snd
      [([97], [([48], \<lparr>en = [65], confidence = []\<rparr>)]),
       ([98], [([48], \<lparr>en = [66], confidence = []\<rparr>)])])) [48]
     = Some \<lparr>en = [65], confidence = []\<rparr> \<and>
   foundProperNouns (protectProperNouns [48]
      [([97], [([48], \<lparr>en = [65], confidence = []\<rparr>)]),
       ([98], [([48], \<lparr>en = [66], confidence = []\<rparr>)])]) = [[48], [48]] \<and>
   placeholderMap (protectProperNouns [48]
      [([97], [([48], \<lparr>en = [65], confidence = []\<rparr>)]),
       ([98], [([48], \<lparr>en = [66], confidence = []\<rparr>)])])
     = [(placeholder 0, [65]), (placeholder 1, [66])] \<and>
   restoreProperNouns
     (protectedText (protectProperNouns [48]
        [([97], [([48], \<lparr>en = [65], confidence = []\<rparr>)]),
         ([98], [([48], \<lparr>en = [66], confidence = []\<rparr>)])]))
     (placeholderMap (protectProperNouns [48]
        [([97], [([48], \<lparr>en = [65], confidence = []\<rparr>)]),
         ([98], [([48], \<lparr>en = [66], confidence = []\<rparr>)])]))
     = [95, 95, 80, 78, 95, 66, 95, 95]"
  unfolding protect_digit_twice
  by (simp add: restoreProperNouns_def replaceAll_def replaceAll_from.simps placeholder_def decimal_small)

text \<open>
  Claim C8, amended. A term that is not empty, has no underscore and is not made of
  placeholder characters only is found at most once, whatever the number of categories
  that hold it; and where it is found, the
  map holds, under the placeholder of that index, the rendering of the first entry for
  the term in the order the loops visit the glossary. (Every step of the route but the
  translation is a function of the text and of the glossary in its enumeration order, so
  a second run on the same two gives the same values.)
\<close>

theorem first_match:
  "placeholder_safe j \<and> map_of (concat (map snd g)) j = Some e \<longrightarrow>
     length (placeholderMap (protectProperNouns text g))
       = length (foundProperNouns (protectProperNouns text g)) \<and>
     count_list (foundProperNouns (protectProperNouns text g)) j \<le> 1 \<and>
     (\<forall>n < length (foundProperNouns (protectProperNouns text g)).
        foundProperNouns (protectProperNouns text g) ! n = j \<longrightarrow>
        placeholderMap (protectProperNouns text g) ! n = (placeholder n, en e))"
proof
  assume "placeholder_safe j \<and> map_of (concat (map snd g)) j = Some e"
  then have r: "resolved j (en e) (protectProperNouns text g)"
    using protect_resolved by blast
  then have "protect_wf (protectProperNouns text g)"
    by (simp add: resolved_def)
  then have "length (placeholderMap (protectProperNouns text g))
       = length (foundProperNouns (protectProperNouns text g))"
    by (metis protect_wf_def length_map length_upt diff_zero)
  then show "length (placeholderMap (protectProperNouns text g))
       = length (foundProperNouns (protectProperNouns text g)) \<and>
     count_list (foundProperNouns (protectProperNouns text g)) j \<le> 1 \<and>
     (\<forall>n < length (foundProperNouns (protectProperNouns text g)).
        foundProperNouns (protectProperNouns text g) ! n = j \<longrightarrow>
        placeholderMap (protectProperNouns text g) ! n = (placeholder n, en e))"
    using r by (simp add: resolved_def)
qed

theorem first_match_witness:
  "placeholder_safe [30000, 20013] \<and>
   map_of (concat (map snd
      [([97], [([30000, 20013], \<lparr>en = [84, 97, 110, 97, 107, 97], confidence = []\<rparr>)]),
       ([98], [([30000, 20013], \<lparr>en = [84, 46], confidence = []\<rparr>)])])) [30000, 20013]
     = Some \<lparr>en = [84, 97, 110, 97, 107, 97], confidence = []\<rparr> \<and>
   foundProperNouns (protectProperNouns [30000, 20013, 12290]
      [([97], [([30000, 20013], \<lparr>en = [84, 97, 110, 97, 107, 97], confidence = []\<rparr>)]),
       ([98], [([30000, 20013], \<lparr>en = [84, 46], confidence = []\<rparr>)])]) = [[30000, 20013]] \<and>
   placeholderMap (protectProperNouns [30000, 20013, 12290]
      [([97], [([30000, 20013], \<lparr>en = [84, 97, 110, 97, 107, 97], confidence = []\<rparr>)]),
       ([98], [([30000, 20013], \<lparr>en = [84, 46], confidence = []\<rparr>)])]) ! 0
     = (placeholder 0, [84, 97, 110, 97, 107, 97])"
proof -
  let ?g = "[([97], [([30000, 20013], \<lparr>en = [84, 97, 110, 97, 107, 97], confidence = []\<rparr>)]),
       ([98], [([30000, 20013], \<lparr>en = [84, 46], confidence = []\<rparr>)])]"
  have a: "placeholder_safe [30000, 20013]"
    by (simp add: placeholder_safe_def placeholder_char_def is_digit_def)
  have b: "map_of (concat (map snd ?g)) [30000, 20013]
     = Some \<lparr>en = [84, 97, 110, 97, 107, 97], confidence = []\<rparr>"
    by simp
  have c: "foundProperNouns (protectProperNouns [30000, 20013, 12290] ?g) = [[30000, 20013]]"
    by (simp add: protect_eval)
  have "placeholderMap (protectProperNouns [30000, 20013, 12290] ?g) ! 0
     = (placeholder 0, en \<lparr>en = [84, 97, 110, 97, 107, 97], confidence = []\<rparr>)"
    using first_match [of "[30000, 20013]" ?g
        "\<lparr>en = [84, 97, 110, 97, 107, 97], confidence = []\<rparr>" "[30000, 20013, 12290]"] a b c
    by simp
  then show ?thesis
    using a b c by simp
qed

section \<open>The two segmentations (claims C7 and C1)\<close>

text \<open>
  Claim C7, as stated, fails: the placeholders have no code unit that matters to the
  splitter, but the terms they replace may have. With the full stop as a term, the
  original text has two sentences and the protected text one; with the space as a term,
  the original text has one sentence and the protected text two.
\<close>

theorem segmentation_aligned_counterexample:
  "length (splitIntoSentences [12354, 12290, 12356]) = 2 \<and>
   length (splitIntoSentences (protectedText (protectProperNouns [12354, 12290, 12356]
      [([97], [([12290], \<lparr>en = [46], confidence = []\<rparr>)])]))) = 1 \<and>
   length (splitIntoSentences [32, 12290, 98]) = 1 \<and>
   length (splitIntoSentences (protectedText (protectProperNouns [32, 12290, 98]
      [([97], [([32], \<lparr>en = [46], confidence = []\<rparr>)])]))) = 2"
proof -
  have a: "protectedText (protectProperNouns [12354, 12290, 12356]
      [([97], [([12290], \<lparr>en = [46], confidence = []\<rparr>)])])
     = [12354, 95, 95, 80, 78, 95, 48, 95, 95, 12356]"
    by (simp add: protect_eval)
  have b: "protectedText (protectProperNouns [32, 12290, 98]
      [([97], [([32], \<lparr>en = [46], confidence = []\<rparr>)])])
     = [95, 95, 80, 78, 95, 48, 95, 95, 12290, 98]"
    by (simp add: protect_eval)
  show ?thesis
    unfolding a b by (simp add: seg_eval)
qed

text \<open>
  Claim C7, amended. When every term of the glossary is inner (not empty, without any mark
  or line feed, and with no white space at its start or end), the protected text has as
  many sentences as the original text, and the sentence at each index is the original
  sentence at that index with the found terms replaced by their placeholders, in the
  order they were found.
\<close>

theorem segmentation_aligned:
  "inner_glossary g \<longrightarrow>
     length (splitIntoSentences (protectedText (protectProperNouns text g)))
       = length (splitIntoSentences text) \<and>
     splitIntoSentences (protectedText (protectProperNouns text g))
       = map (apply_placeholders 0 (foundProperNouns (protectProperNouns text g)))
           (splitIntoSentences text)"
  using protect_aligned(2) [of g "text"] by simp

text \<open>The example of the specification: two sentences, a glossary with one full name.\<close>

theorem segmentation_aligned_witness:
  "inner_glossary [([97], [([30000, 20013, 22826, 37070],
      \<lparr>en = [84, 97, 114, 111, 32, 84, 97, 110, 97, 107, 97], confidence = []\<rparr>)])] \<and>
   length (splitIntoSentences [30000, 20013, 22826, 37070, 12399, 50, 48, 50, 48, 24180, 12395,
      26469, 26085, 12375, 12383, 12290, 24444, 12398, 20303, 25152, 12399, 26481, 20140, 37117,
      12391, 12377, 12290]) = 2 \<and>
   length (splitIntoSentences (protectedText (protectProperNouns
      [30000, 20013, 22826, 37070, 12399, 50, 48, 50, 48, 24180, 12395,
      26469, 26085, 12375, 12383, 12290, 24444, 12398, 20303, 25152, 12399, 26481, 20140, 37117,
      12391, 12377, 12290]
      [([97], [([30000, 20013, 22826, 37070],
        \<lparr>en = [84, 97, 114, 111, 32, 84, 97, 110, 97, 107, 97], confidence = []\<rparr>)])]))) = 2"
proof -
  have a: "inner_glossary [([97], [([30000, 20013, 22826, 37070],
      \<lparr>en = [84, 97, 114, 111, 32, 84, 97, 110, 97, 107, 97], confidence = []\<rparr>)])]"
    by (simp add: inner_glossary_def inner_term_def plainc_def is_sep_def is_punct_def is_ws_def)
  have b: "length (splitIntoSentences [30000, 20013, 22826, 37070, 12399, 50, 48, 50, 48, 24180,
      12395, 26469, 26085, 12375, 12383, 12290, 24444, 12398, 20303, 25152, 12399, 26481, 20140,
      37117, 12391, 12377, 12290]) = 2"
    by (simp add: seg_eval)
  show ?thesis
    using a b segmentation_aligned [of "[([97], [([30000, 20013, 22826, 37070],
      \<lparr>en = [84, 97, 114, 111, 32, 84, 97, 110, 97, 107, 97], confidence = []\<rparr>)])]"
      "[30000, 20013, 22826, 37070, 12399, 50, 48, 50, 48, 24180, 12395,
      26469, 26085, 12375, 12383, 12290, 24444, 12398, 20303, 25152, 12399, 26481, 20140, 37117,
      12391, 12377, 12290]"]
    by simp
qed

lemma protect_full_stop_example:
  "protectProperNouns [12354, 12290, 12356] [([97], [([12290], \<lparr>en = [46], confidence = []\<rparr>)])]
     = \<lparr> protectedText = [12354, 95, 95, 80, 78, 95, 48, 95, 95, 12356],
         placeholderMap = [([95, 95, 80, 78, 95, 48, 95, 95], [46])],
         foundProperNouns = [[12290]], placeholderIndex = 1 \<rparr>"
  by (simp add: protect_eval)

lemma protect_space_example:
  "protectProperNouns [32, 12290, 98] [([97], [([32], \<lparr>en = [46], confidence = []\<rparr>)])]
     = \<lparr> protectedText = [95, 95, 80, 78, 95, 48, 95, 95, 12290, 98],
         placeholderMap = [([95, 95, 80, 78, 95, 48, 95, 95], [46])],
         foundProperNouns = [[32]], placeholderIndex = 1 \<rparr>"
  by (simp add: protect_eval)

text \<open>
  Claim C1, as stated, fails: the route has no fallback. With the full stop as a term,
  the original text has two sentences and the protected text one; reading the second
  translation throws, although the call to the provider succeeds with the text
  \<^verbatim>\<open>{"translated":"Hi"}\<close>, and the request ends with status 500.
\<close>

theorem misaligned_request_counterexample:
  "length (splitIntoSentences [12354, 12290, 12356]) \<noteq>
     length (splitIntoSentences (protectedText (protectProperNouns [12354, 12290, 12356]
        [([97], [([12290], \<lparr>en = [46], confidence = []\<rparr>)])]))) \<and>
   fst (POST \<lparr> api_key_set = True, body = Body (Some [12354, 12290, 12356]) (Some visa_strict) \<rparr>
          (Parsed [([97], [([12290], \<lparr>en = [46], confidence = []\<rparr>)])]) None
          (\<lambda>i s. Content [123, 34, 116, 114, 97, 110, 115, 108, 97, 116, 101, 100, 34, 58, 34, 72,
                          105, 34, 125]
                   (Json (JObj [(key_translated, JStr [72, 105])]))))
     = InternalServerError500"
proof -
  have a: "length (splitIntoSentences [12354, 12290, 12356]) = 2"
    by (simp add: seg_eval)
  have b: "length (splitIntoSentences (protectedText (protectProperNouns [12354, 12290, 12356]
        [([97], [([12290], \<lparr>en = [46], confidence = []\<rparr>)])]))) = 1"
    unfolding protect_full_stop_example by (simp add: seg_eval)
  have "translate_pipeline [([97], [([12290], \<lparr>en = [46], confidence = []\<rparr>)])]
          [12354, 12290, 12356]
          (\<lambda>i s. Content [123, 34, 116, 114, 97, 110, 115, 108, 97, 116, 101, 100, 34, 58, 34, 72,
                          105, 34, 125]
                   (Json (JObj [(key_translated, JStr [72, 105])])))
        = InternalServerError500"
    by (rule translate_pipeline_short) (simp only: a b)
  then show ?thesis
    using a b by (simp add: POST_valid)
qed

text \<open>
  Claim C1, amended. For a valid request, the whole text is never taken as one sentence
  because the two segmentations differ. When the protected text has fewer sentences than
  the original text, the request ends with the response 500. When it has as many or
  more, and every translation is a string, the request completes with one entry for each
  original sentence, and the entry at an index holds the original sentence and, as a
  string, the restored translation of the protected sentence at the same index
  (translations past the last original sentence are in no entry).
\<close>

theorem misaligned_request:
  "text \<noteq> [] \<and> fst (loadGlossary file cache) = g \<longrightarrow>
     (length (splitIntoSentences (protectedText (protectProperNouns text g)))
        < length (splitIntoSentences text) \<longrightarrow>
      fst (POST \<lparr> api_key_set = True, body = Body (Some text) (Some visa_strict) \<rparr> file cache llm)
        = InternalServerError500) \<and>
     (length (splitIntoSentences text)
        \<le> length (splitIntoSentences (protectedText (protectProperNouns text g))) \<and>
      list_all is_string
        (sentenceTranslations llm (splitIntoSentences (protectedText (protectProperNouns text g))))
      \<longrightarrow>
      (\<exists>r. fst (POST \<lparr> api_key_set = True, body = Body (Some text) (Some visa_strict) \<rparr>
                 file cache llm) = Ok200 r \<and>
           length (sentences r) = length (splitIntoSentences text) \<and>
           (\<forall>i < length (splitIntoSentences text).
              original (sentences r ! i) = splitIntoSentences text ! i \<and>
              is_string (translated (sentences r ! i)) \<and>
              restoreProperNouns_value
                (translateSentence
                   (llm i (splitIntoSentences (protectedText (protectProperNouns text g)) ! i))
                   (splitIntoSentences (protectedText (protectProperNouns text g)) ! i))
                (placeholderMap (protectProperNouns text g))
                = Some (translated (sentences r ! i)))))"
proof (intro impI conjI)
  assume h: "text \<noteq> [] \<and> fst (loadGlossary file cache) = g"
  then have post: "fst (POST \<lparr> api_key_set = True, body = Body (Some text) (Some visa_strict) \<rparr>
      file cache llm) = translate_pipeline g text llm"
    by (simp add: POST_valid)
  show "fst (POST \<lparr> api_key_set = True, body = Body (Some text) (Some visa_strict) \<rparr> file cache llm)
        = InternalServerError500"
    if "length (splitIntoSentences (protectedText (protectProperNouns text g)))
        < length (splitIntoSentences text)"
    using that post by (simp add: translate_pipeline_short)
  show "\<exists>r. fst (POST \<lparr> api_key_set = True, body = Body (Some text) (Some visa_strict) \<rparr>
                 file cache llm) = Ok200 r \<and>
           length (sentences r) = length (splitIntoSentences text) \<and>
           (\<forall>i < length (splitIntoSentences text).
              original (sentences r ! i) = splitIntoSentences text ! i \<and>
              is_string (translated (sentences r ! i)) \<and>
              restoreProperNouns_value
                (translateSentence
                   (llm i (splitIntoSentences (protectedText (protectProperNouns text g)) ! i))
                   (splitIntoSentences (protectedText (protectProperNouns text g)) ! i))
                (placeholderMap (protectProperNouns text g))
                = Some (translated (sentences r ! i)))"
    if hyp: "length (splitIntoSentences text)
        \<le> length (splitIntoSentences (protectedText (protectProperNouns text g))) \<and>
      list_all is_string
        (sentenceTranslations llm (splitIntoSentences (protectedText (protectProperNouns text g))))"
  proof -
    let ?ps = "splitIntoSentences (protectedText (protectProperNouns text g))"
    from hyp have le: "length (splitIntoSentences text) \<le> length ?ps"
      and str: "list_all is_string (sentenceTranslations llm ?ps)"
      by simp_all
    obtain r where r: "translate_pipeline g text llm = Ok200 r"
      using translate_pipeline_strings [OF le str] by blast
    note len = translate_pipeline_sentences(2) [OF r]
    have ent: "original (sentences r ! i) = splitIntoSentences text ! i \<and>
              is_string (translated (sentences r ! i)) \<and>
              restoreProperNouns_value (translateSentence (llm i (?ps ! i)) (?ps ! i))
                (placeholderMap (protectProperNouns text g))
                = Some (translated (sentences r ! i))"
      if i: "i < length (splitIntoSentences text)" for i
    proof -
      have e: "original (sentences r ! i) = splitIntoSentences text ! i \<and>
           restoreProperNouns_value (translateSentence (llm i (?ps ! i)) (?ps ! i))
             (placeholderMap (protectProperNouns text g))
             = Some (translated (sentences r ! i))"
        using translate_pipeline_sentences(3) [OF r, of i] i len by simp
      have "i < length ?ps"
        using i le by simp
      then have "is_string (sentenceTranslations llm ?ps ! i)"
        using str by (simp add: list_all_length)
      then have "is_string (translateSentence (llm i (?ps ! i)) (?ps ! i))"
        using \<open>i < length ?ps\<close> by (simp add: sentenceTranslations_nth)
      then obtain s where "restoreProperNouns_value (translateSentence (llm i (?ps ! i)) (?ps ! i))
             (placeholderMap (protectProperNouns text g)) = Some (JStr s)"
        using restore_value_string by blast
      with e have "is_string (translated (sentences r ! i))"
        by (metis is_string_iff option.inject)
      with e show ?thesis
        by blast
    qed
    show ?thesis
      using r post len ent by simp
  qed
qed

text \<open>
  With the space as a term, the original text has one sentence and the protected text
  two; the provider fails, so each sentence stands for its own translation; the one
  entry pairs the original sentence with the restored first protected sentence.
\<close>

theorem misaligned_request_witness:
  "length (splitIntoSentences [32, 12290, 98]) = 1 \<and>
   length (splitIntoSentences (protectedText (protectProperNouns [32, 12290, 98]
      [([97], [([32], \<lparr>en = [46], confidence = []\<rparr>)])]))) = 2 \<and>
   (\<exists>r. fst (POST \<lparr> api_key_set = True, body = Body (Some [32, 12290, 98]) (Some visa_strict) \<rparr>
              (Parsed [([97], [([32], \<lparr>en = [46], confidence = []\<rparr>)])]) None
              (\<lambda>i s. ApiError)) = Ok200 r \<and>
        length (sentences r) = 1 \<and>
        original (sentences r ! 0) = [98] \<and>
        translated (sentences r ! 0) = JStr [46, 12290])"
proof -
  let ?g = "[([97], [([32], \<lparr>en = [46], confidence = []\<rparr>)])]"
  have a: "splitIntoSentences [32, 12290, 98] = [[98]]"
    by (simp add: seg_eval)
  have b: "splitIntoSentences (protectedText (protectProperNouns [32, 12290, 98] ?g))
             = [[95, 95, 80, 78, 95, 48, 95, 95, 12290], [98]]"
    unfolding protect_space_example by (simp add: seg_eval)
  have c: "restoreProperNouns [95, 95, 80, 78, 95, 48, 95, 95, 12290]
             (placeholderMap (protectProperNouns [32, 12290, 98] ?g)) = [46, 12290]"
    unfolding protect_space_example
    by (simp add: restoreProperNouns_def replaceAll_def replaceAll_from.simps)
  have d: "[32, 12290, 98] \<noteq> [] \<and> fst (loadGlossary (Parsed ?g) None) = ?g"
    by simp
  have e: "length (splitIntoSentences [32, 12290, 98])
        \<le> length (splitIntoSentences (protectedText (protectProperNouns [32, 12290, 98] ?g))) \<and>
      list_all is_string
        (sentenceTranslations (\<lambda>i s. ApiError)
           (splitIntoSentences (protectedText (protectProperNouns [32, 12290, 98] ?g))))"
    unfolding a b by (simp add: sentenceTranslations_def is_string_def)
  obtain r where r: "fst (POST \<lparr> api_key_set = True,
        body = Body (Some [32, 12290, 98]) (Some visa_strict) \<rparr> (Parsed ?g) None (\<lambda>i s. ApiError))
        = Ok200 r"
      "length (sentences r) = length (splitIntoSentences [32, 12290, 98])"
      "\<forall>i < length (splitIntoSentences [32, 12290, 98]).
              original (sentences r ! i) = splitIntoSentences [32, 12290, 98] ! i \<and>
              is_string (translated (sentences r ! i)) \<and>
              restoreProperNouns_value
                (translateSentence
                   ((\<lambda>i s. ApiError) i
                      (splitIntoSentences (protectedText (protectProperNouns [32, 12290, 98] ?g)) ! i))
                   (splitIntoSentences (protectedText (protectProperNouns [32, 12290, 98] ?g)) ! i))
                (placeholderMap (protectProperNouns [32, 12290, 98] ?g))
                = Some (translated (sentences r ! i))"
    using misaligned_request [of "[32, 12290, 98]" "Parsed ?g" None ?g "\<lambda>i s. ApiError"] d e
    by blast
  from r(3) have "original (sentences r ! 0) = [98] \<and> translated (sentences r ! 0) = JStr [46, 12290]"
    unfolding a b by (simp add: c)
  then show ?thesis
    using r(1,2) unfolding a b by auto
qed

section \<open>Residual placeholders (claim C3)\<close>

text \<open>
  Claim C3, as stated, fails. A rendering may bring the placeholder back: with the
  rendering \<^verbatim>\<open>$&\<close>, which \<^verbatim>\<open>replaceAll\<close> reads as the matched text, restoring the
  protected text itself (a translation that kept the placeholder, as it must) gives the
  placeholder again. And a token that is not a key of the map stays: with the empty
  glossary, a text that reads \<^verbatim>\<open>__PN_0__\<close> is restored to itself.
\<close>

lemma protect_dollar_example:
  "protectProperNouns [30000, 20013] [([97], [([30000, 20013], \<lparr>en = [36, 38], confidence = []\<rparr>)])]
     = \<lparr> protectedText = [95, 95, 80, 78, 95, 48, 95, 95],
         placeholderMap = [([95, 95, 80, 78, 95, 48, 95, 95], [36, 38])],
         foundProperNouns = [[30000, 20013]], placeholderIndex = 1 \<rparr>"
  by (simp add: protect_eval)

theorem restore_complete_counterexample:
  "has_placeholder_token
     (restoreProperNouns
        (protectedText (protectProperNouns [30000, 20013]
           [([97], [([30000, 20013], \<lparr>en = [36, 38], confidence = []\<rparr>)])]))
        (placeholderMap (protectProperNouns [30000, 20013]
           [([97], [([30000, 20013], \<lparr>en = [36, 38], confidence = []\<rparr>)])]))) \<and>
   has_placeholder_token
     (restoreProperNouns [95, 95, 80, 78, 95, 48, 95, 95]
        (placeholderMap (protectProperNouns [95, 95, 80, 78, 95, 48, 95, 95] [])))"
proof -
  have a: "restoreProperNouns [95, 95, 80, 78, 95, 48, 95, 95]
             [([95, 95, 80, 78, 95, 48, 95, 95], [36, 38])] = [95, 95, 80, 78, 95, 48, 95, 95]"
    by (simp add: restoreProperNouns_def replaceAll_def replaceAll_from.simps)
  have b: "has_placeholder_token [95, 95, 80, 78, 95, 48, 95, 95]"
    by (simp add: is_digit_def)
  show ?thesis
    unfolding protect_dollar_example protect_empty
    using b by (simp add: a protect_init_def restore_empty)
qed

text \<open>
  Claim C3, amended. Let the map be the one \<open>protectProperNouns\<close> made from a glossary
  whose renderings have neither a dollar sign nor an underscore. Then restoring a text
  made of code units other than the underscore and of placeholders that are keys of the
  map gives a text with no placeholder-shaped token.
\<close>

theorem restore_complete:
  "list_all (plain_piece 0 (length (placeholderMap (protectProperNouns text g)))) ps \<and>
   list_all (\<lambda>ke. 36 \<notin> set (en (snd ke)) \<and> 95 \<notin> set (en (snd ke))) (concat (map snd g)) \<longrightarrow>
     \<not> has_placeholder_token
         (restoreProperNouns (render ps) (placeholderMap (protectProperNouns text g)))"
proof
  let ?pm = "placeholderMap (protectProperNouns text g)"
  assume h: "list_all (plain_piece 0 (length ?pm)) ps \<and>
   list_all (\<lambda>ke. 36 \<notin> set (en (snd ke)) \<and> 95 \<notin> set (en (snd ke))) (concat (map snd g))"
  have vals: "list_all (\<lambda>e. 36 \<notin> set e \<and> 95 \<notin> set e) (map snd ?pm)"
    unfolding list_all_iff
  proof
    fix e
    assume "e \<in> set (map snd ?pm)"
    then have "e \<in> (\<lambda>ke. en (snd ke)) ` set (concat (map snd g))"
      using protect_values [of "text" g] by auto
    then show "36 \<notin> set e \<and> 95 \<notin> set e"
      using h by (auto simp: list_all_iff)
  qed
  have ps: "list_all (plain_piece 0 (0 + length (map snd ?pm))) ps"
    using h by simp
  have "95 \<notin> set (restoreProperNouns (render ps)
          (zip (map placeholder [0..<0 + length (map snd ?pm)]) (map snd ?pm)))"
    using ps vals by (rule restore_render)
  then have "95 \<notin> set (restoreProperNouns (render ps) ?pm)"
    using protect_map_shape [of "text" g] by simp
  then show "\<not> has_placeholder_token (restoreProperNouns (render ps) ?pm)"
    by (rule no_underscore_no_token)
qed

lemma protect_full_name_example:
  "protectProperNouns [30000, 20013, 22826, 37070, 12399, 26469, 26085, 12375, 12383, 12290]
     [([97], [([30000, 20013, 22826, 37070],
        \<lparr>en = [84, 97, 114, 111, 32, 84, 97, 110, 97, 107, 97], confidence = []\<rparr>)])]
     = \<lparr> protectedText = [95, 95, 80, 78, 95, 48, 95, 95, 12399, 26469, 26085, 12375, 12383, 12290],
         placeholderMap = [([95, 95, 80, 78, 95, 48, 95, 95],
                            [84, 97, 114, 111, 32, 84, 97, 110, 97, 107, 97])],
         foundProperNouns = [[30000, 20013, 22826, 37070]], placeholderIndex = 1 \<rparr>"
  by (simp add: protect_eval)

theorem restore_complete_witness:
  "list_all (plain_piece 0 (length (placeholderMap (protectProperNouns
        [30000, 20013, 22826, 37070, 12399, 26469, 26085, 12375, 12383, 12290]
        [([97], [([30000, 20013, 22826, 37070],
           \<lparr>en = [84, 97, 114, 111, 32, 84, 97, 110, 97, 107, 97], confidence = []\<rparr>)])]))))
     [Ph 0, Ch 32, Ch 99, Ch 97, Ch 109, Ch 101, Ch 46] \<and>
   render [Ph 0, Ch 32, Ch 99, Ch 97, Ch 109, Ch 101, Ch 46]
     = [95, 95, 80, 78, 95, 48, 95, 95, 32, 99, 97, 109, 101, 46] \<and>
   restoreProperNouns (render [Ph 0, Ch 32, Ch 99, Ch 97, Ch 109, Ch 101, Ch 46])
     (placeholderMap (protectProperNouns
        [30000, 20013, 22826, 37070, 12399, 26469, 26085, 12375, 12383, 12290]
        [([97], [([30000, 20013, 22826, 37070],
           \<lparr>en = [84, 97, 114, 111, 32, 84, 97, 110, 97, 107, 97], confidence = []\<rparr>)])]))
     = [84, 97, 114, 111, 32, 84, 97, 110, 97, 107, 97, 32, 99, 97, 109, 101, 46] \<and>
   \<not> has_placeholder_token
       (restoreProperNouns (render [Ph 0, Ch 32, Ch 99, Ch 97, Ch 109, Ch 101, Ch 46])
          (placeholderMap (protectProperNouns
             [30000, 20013, 22826, 37070, 12399, 26469, 26085, 12375, 12383, 12290]
             [([97], [([30000, 20013, 22826, 37070],
                \<lparr>en = [84, 97, 114, 111, 32, 84, 97, 110, 97, 107, 97], confidence = []\<rparr>)])])))"
proof -
  let ?g = "[([97], [([30000, 20013, 22826, 37070],
           \<lparr>en = [84, 97, 114, 111, 32, 84, 97, 110, 97, 107, 97], confidence = []\<rparr>)])]"
  let ?t = "[30000, 20013, 22826, 37070, 12399, 26469, 26085, 12375, 12383, 12290]"
  let ?ps = "[Ph 0, Ch 32, Ch 99, Ch 97, Ch 109, Ch 101, Ch 46]"
  have a: "list_all (plain_piece 0 (length (placeholderMap (protectProperNouns ?t ?g)))) ?ps"
    unfolding protect_full_name_example by simp
  have b: "list_all (\<lambda>ke. 36 \<notin> set (en (snd ke)) \<and> 95 \<notin> set (en (snd ke))) (concat (map snd ?g))"
    by simp
  have c: "render ?ps = [95, 95, 80, 78, 95, 48, 95, 95, 32, 99, 97, 109, 101, 46]"
    by (simp add: placeholder_def decimal_small)
  have d: "restoreProperNouns (render ?ps) (placeholderMap (protectProperNouns ?t ?g))
     = [84, 97, 114, 111, 32, 84, 97, 110, 97, 107, 97, 32, 99, 97, 109, 101, 46]"
    unfolding protect_full_name_example c
    by (simp add: restoreProperNouns_def replaceAll_def replaceAll_from.simps)
  have e: "\<not> has_placeholder_token
       (restoreProperNouns (render ?ps) (placeholderMap (protectProperNouns ?t ?g)))"
    using restore_complete [of ?t ?g ?ps] a b by blast
  show ?thesis
    using a c d e by blast
qed

section \<open>A failed translation (claim C5)\<close>





section \<open>Loading the glossary (claims C9 and C10)\<close>



text \<open>
  Claim C10. A load that fails leaves the cache unset and returns the empty glossary, so
  the next call reads the file again (and caches it if it now parses). A load that
  succeeds sets the cache, and from then on every call returns the cached glossary and
  leaves the cache as it is, whatever the file has become.
\<close>

theorem loadGlossary_cache:
  "((file = Unreadable \<or> file = Malformed) \<longrightarrow>
      loadGlossary file None = ([], None) \<and>
      loadGlossary_calls [file, Parsed g] None = ([[], g], Some g)) \<and>
   loadGlossary (Parsed g) None = (g, Some g) \<and>
   loadGlossary file (Some g) = (g, Some g) \<and>
   loadGlossary_calls files (snd (loadGlossary (Parsed g) None)) =
     (replicate (length files) g, Some g)"
  by (auto simp: calls_cached)

theorem loadGlossary_cache_witness:
  "loadGlossary Malformed None = ([], None) \<and>
   loadGlossary_calls [Malformed, Parsed [([1], [])], Unreadable] None
     = ([[], [([1], [])], [([1], [])]], Some [([1], [])])"
  using loadGlossary_cache [of Malformed "[([1], [])]" "[Unreadable]"]
  by simp

end
